theory Spec2Isabelle
  imports Complex_Main
begin

section \<open>Data model (src/lib/chess.ts, lines 3-26)\<close>

datatype pieceType = Pawn | Knight | Bishop | Rook | Queen | King

datatype pieceColor = White | Black

record piece =
  type :: pieceType
  color :: pieceColor

text \<open>Row and column are JavaScript numbers; every position the program builds is made of
  integers, so they are modelled as \<open>int\<close> (negative and too large values included).\<close>

record position =
  row :: int
  col :: int

text \<open>The interface \<open>Move\<close>. Its optional fields (\<open>captured\<close>, \<open>isEnPassant\<close>,
  \<open>isCastling\<close>, \<open>promotion\<close>) are never read or written by the code and are left out.\<close>

record move =
  "from" :: position
  to :: position
  piece :: piece

text \<open>\<open>Board = (Piece | null)[][]\<close>: a list of rows, \<open>None\<close> for \<open>null\<close>.\<close>

type_synonym board = "piece option list list"

text \<open>The anonymous type \<open>{ from: Position; to: Position }\<close> of src/lib/chessAI.ts is the
  pair (from, to).\<close>

type_synonym fromTo = "position \<times> position"

text \<open>The boards the program builds (\<open>INITIAL_BOARD\<close>, \<open>copyBoard\<close>, \<open>makeMove\<close>) have 8 rows
  of 8 cells. The theorems below are about these boards.\<close>

definition wf_board :: "board \<Rightarrow> bool" where
  "wf_board b \<longleftrightarrow> length b = 8 \<and> (\<forall>r \<in> set b. length r = 8)"

definition blackPiece :: "pieceType \<Rightarrow> piece option" where
  "blackPiece t = Some \<lparr>type = t, color = Black\<rparr>"

definition whitePiece :: "pieceType \<Rightarrow> piece option" where
  "whitePiece t = Some \<lparr>type = t, color = White\<rparr>"

definition INITIAL_BOARD :: board where
  "INITIAL_BOARD =
    [ map blackPiece [Rook, Knight, Bishop, Queen, King, Bishop, Knight, Rook],
      replicate 8 (blackPiece Pawn),
      replicate 8 None,
      replicate 8 None,
      replicate 8 None,
      replicate 8 None,
      replicate 8 (whitePiece Pawn),
      map whitePiece [Rook, Knight, Bishop, Queen, King, Bishop, Knight, Rook] ]"

section \<open>Reading and writing squares\<close>

datatype error = TypeError

text \<open>\<open>board[r][c]\<close> where the row \<open>board[r]\<close> exists. A column outside the row reads
  \<open>undefined\<close>, which every test of the source (\<open>!piece\<close>, \<open>piece && ...\<close>) treats as it
  treats \<open>null\<close>: it is \<open>None\<close> too. Where row \<open>r\<close> does not exist the source raises:
  that branch is in \<open>readSquare\<close> below. \<open>cellAt\<close> is the value of the read on an 8 x 8
  board, for a row index that is a loop index in 0..7 or has passed \<open>isValidPosition\<close>; the
  functions of the search and of check detection are written with it. \<open>getValidMoves\<close>,
  which receives the caller's position, is embedded with \<open>readSquare\<close> at every read, and
  lemma \<open>getValidMoves_wf\<close> proves that on an 8 x 8 board none of them raises and the two
  embeddings return the same.\<close>

definition cellAt :: "board \<Rightarrow> int \<Rightarrow> int \<Rightarrow> piece option" where
  "cellAt board r c =
     (if 0 \<le> r \<and> r < int (length board) \<and> 0 \<le> c \<and> c < int (length (board ! nat r))
      then board ! nat r ! nat c else None)"

text \<open>\<open>board[r][c]\<close> for an arbitrary position: \<open>board[r]\<close> is \<open>undefined\<close> when \<open>r\<close> is not an
  index of the array, and reading a property of \<open>undefined\<close> raises a TypeError.\<close>

definition readSquare :: "board \<Rightarrow> position \<Rightarrow> error + piece option" where
  "readSquare board pos =
     (if 0 \<le> row pos \<and> row pos < int (length board)
      then Inr (cellAt board (row pos) (col pos)) else Inl TypeError)"

text \<open>\<open>board[r][c] = v\<close> on an existing square. (Outside the board the source raises on a
  missing row and grows the row on a missing column; the program writes only to squares
  that passed \<open>isValidPosition\<close>, and every theorem below does the same.)\<close>

definition setCell :: "board \<Rightarrow> int \<Rightarrow> int \<Rightarrow> piece option \<Rightarrow> board" where
  "setCell board r c v =
     (if 0 \<le> r \<and> r < int (length board) \<and> 0 \<le> c \<and> c < int (length (board ! nat r))
      then board[nat r := (board ! nat r)[nat c := v]] else board)"

definition isValidPosition :: "position \<Rightarrow> bool" where
  "isValidPosition pos \<longleftrightarrow> row pos \<ge> 0 \<and> row pos < 8 \<and> col pos \<ge> 0 \<and> col pos < 8"

definition copyBoard :: "board \<Rightarrow> board" where
  "copyBoard board =
     map (\<lambda>r. map (\<lambda>p. case p of Some q \<Rightarrow> Some q | None \<Rightarrow> None) r) board"

text \<open>The two nested loops \<open>for row = 0..7, for col = 0..7\<close>, in their order.\<close>

definition indices :: "int list" where
  "indices = [0, 1, 2, 3, 4, 5, 6, 7]"

definition allSquares :: "position list" where
  "allSquares = concat (map (\<lambda>r. map (\<lambda>c. \<lparr>row = r, col = c\<rparr>) indices) indices)"

section \<open>Applying a move (src/lib/chessAI.ts, lines 125-130)\<close>

definition makeMove :: "board \<Rightarrow> position \<Rightarrow> position \<Rightarrow> board" where
  "makeMove board src dst =
     (let newBoard = copyBoard board;
          newBoard = setCell newBoard (row dst) (col dst) (cellAt newBoard (row src) (col src));
          newBoard = setCell newBoard (row src) (col src) None
      in newBoard)"

section \<open>Move generation (src/lib/chess.ts, lines 121-256)\<close>

definition getPawnMoves :: "board \<Rightarrow> position \<Rightarrow> pieceColor \<Rightarrow> move option \<Rightarrow> position list" where
  "getPawnMoves board src clr lastMove =
     (let direction = (if clr = White then - 1 else 1);
          startRow = (if clr = White then 6 else 1);
          forward = \<lparr>row = row src + direction, col = col src\<rparr>;
          doubleForward = \<lparr>row = row src + 2 * direction, col = col src\<rparr>;
          moves =
            (if isValidPosition forward \<and> cellAt board (row forward) (col forward) = None
             then forward #
               (if row src = startRow
                then (if cellAt board (row doubleForward) (col doubleForward) = None
                      then [doubleForward] else [])
                else [])
             else [])
      in moves @ concat (map (\<lambda>colOffset.
           let capture = \<lparr>row = row src + direction, col = col src + colOffset\<rparr> in
           if isValidPosition capture then
             (case cellAt board (row capture) (col capture) of
                Some target \<Rightarrow> if color target \<noteq> clr then [capture] else []
              | None \<Rightarrow> [])
             @ (case lastMove of
                  Some lm \<Rightarrow>
                    if type (piece lm) = Pawn
                       \<and> \<bar>row (from lm) - row (to lm)\<bar> = 2
                       \<and> row (to lm) = row src
                       \<and> col (to lm) = col capture
                    then [capture] else []
                | None \<Rightarrow> [])
           else []) [- 1, 1]))"

definition getKnightMoves :: "board \<Rightarrow> position \<Rightarrow> pieceColor \<Rightarrow> position list" where
  "getKnightMoves board src clr =
     concat (map (\<lambda>(rowOffset, colOffset).
       let dst = \<lparr>row = row src + rowOffset, col = col src + colOffset\<rparr> in
       if isValidPosition dst then
         (case cellAt board (row dst) (col dst) of
            None \<Rightarrow> [dst]
          | Some target \<Rightarrow> if color target \<noteq> clr then [dst] else [])
       else [])
       [(- 2, - 1), (- 2, 1), (- 1, - 2), (- 1, 2), (1, - 2), (1, 2), (2, - 1), (2, 1)])"

definition getKingMoves :: "board \<Rightarrow> position \<Rightarrow> pieceColor \<Rightarrow> position list" where
  "getKingMoves board src clr =
     concat (map (\<lambda>(rowOffset, colOffset).
       let dst = \<lparr>row = row src + rowOffset, col = col src + colOffset\<rparr> in
       if isValidPosition dst then
         (case cellAt board (row dst) (col dst) of
            None \<Rightarrow> [dst]
          | Some target \<Rightarrow> if color target \<noteq> clr then [dst] else [])
       else [])
       [(- 1, - 1), (- 1, 0), (- 1, 1), (0, - 1), (0, 1), (1, - 1), (1, 0), (1, 1)])"

text \<open>The \<open>while\<close> loop of \<open>getDirectionalMoves\<close> for one direction, started at
  \<open>(r, c)\<close>: the squares it pushes, in order. Every caller passes directions other than
  \<open>(0, 0)\<close>, and with such a direction the loop leaves the board after at most 8 steps.
  The conjunct \<open>rowDir \<noteq> 0 \<or> colDir \<noteq> 0\<close> is not in the source: it makes the function total
  for the direction \<open>(0, 0)\<close>, which the program never passes (there the source would not
  return on an empty square).\<close>

function rayMoves :: "board \<Rightarrow> pieceColor \<Rightarrow> int \<Rightarrow> int \<Rightarrow> int \<Rightarrow> int \<Rightarrow> position list" where
  "rayMoves board clr rowDir colDir r c =
     (if isValidPosition \<lparr>row = r, col = c\<rparr> \<and> (rowDir \<noteq> 0 \<or> colDir \<noteq> 0) then
        (case cellAt board r c of
           None \<Rightarrow> \<lparr>row = r, col = c\<rparr> # rayMoves board clr rowDir colDir (r + rowDir) (c + colDir)
         | Some target \<Rightarrow> (if color target \<noteq> clr then [\<lparr>row = r, col = c\<rparr>] else []))
      else [])"
  by pat_completeness auto
termination
  by (relation "measure (\<lambda>(board, clr, rowDir, colDir, r, c).
        if rowDir > 0 then nat (8 - r) else if rowDir < 0 then nat (r + 1)
        else if colDir > 0 then nat (8 - c) else nat (c + 1))")
     (auto simp: isValidPosition_def)

declare rayMoves.simps [simp del]

definition getDirectionalMoves ::
  "board \<Rightarrow> position \<Rightarrow> pieceColor \<Rightarrow> (int \<times> int) list \<Rightarrow> position list" where
  "getDirectionalMoves board src clr directions =
     concat (map (\<lambda>(rowDir, colDir).
       rayMoves board clr rowDir colDir (row src + rowDir) (col src + colDir)) directions)"

definition getBishopMoves :: "board \<Rightarrow> position \<Rightarrow> pieceColor \<Rightarrow> position list" where
  "getBishopMoves board src clr =
     getDirectionalMoves board src clr [(- 1, - 1), (- 1, 1), (1, - 1), (1, 1)]"

definition getRookMoves :: "board \<Rightarrow> position \<Rightarrow> pieceColor \<Rightarrow> position list" where
  "getRookMoves board src clr =
     getDirectionalMoves board src clr [(- 1, 0), (1, 0), (0, - 1), (0, 1)]"

definition getQueenMoves :: "board \<Rightarrow> position \<Rightarrow> pieceColor \<Rightarrow> position list" where
  "getQueenMoves board src clr =
     getDirectionalMoves board src clr
       [(- 1, - 1), (- 1, 0), (- 1, 1), (0, - 1), (0, 1), (1, - 1), (1, 0), (1, 1)]"

section \<open>Check detection (src/lib/chess.ts, lines 258-323)\<close>

text \<open>\<open>getValidMovesWithoutCheckTest\<close> is called with the loop indices of \<open>isInCheck\<close> only.\<close>

definition getValidMovesWithoutCheckTest :: "board \<Rightarrow> position \<Rightarrow> position list" where
  "getValidMovesWithoutCheckTest board src =
     (case cellAt board (row src) (col src) of
        None \<Rightarrow> []
      | Some p \<Rightarrow>
          (case type p of
             Pawn \<Rightarrow> getPawnMoves board src (color p) None
           | Knight \<Rightarrow> getKnightMoves board src (color p)
           | Bishop \<Rightarrow> getBishopMoves board src (color p)
           | Rook \<Rightarrow> getRookMoves board src (color p)
           | Queen \<Rightarrow> getQueenMoves board src (color p)
           | King \<Rightarrow> getKingMoves board src (color p)))"

definition findKing :: "board \<Rightarrow> pieceColor \<Rightarrow> position option" where
  "findKing board clr =
     find (\<lambda>pos. case cellAt board (row pos) (col pos) of
                    Some p \<Rightarrow> type p = King \<and> color p = clr
                  | None \<Rightarrow> False) allSquares"

definition isInCheck :: "board \<Rightarrow> pieceColor \<Rightarrow> bool" where
  "isInCheck board clr =
     (case findKing board clr of
        None \<Rightarrow> False
      | Some kingPos \<Rightarrow>
          (let opponentColor = (if clr = White then Black else White) in
           list_ex (\<lambda>pos.
             case cellAt board (row pos) (col pos) of
               Some p \<Rightarrow> color p = opponentColor \<and>
                 list_ex (\<lambda>m. row m = row kingPos \<and> col m = col kingPos)
                   (getValidMovesWithoutCheckTest board pos)
             | None \<Rightarrow> False) allSquares))"

definition wouldBeInCheck :: "board \<Rightarrow> position \<Rightarrow> position \<Rightarrow> pieceColor \<Rightarrow> bool" where
  "wouldBeInCheck board src dst clr =
     (let testBoard = copyBoard board;
          testBoard = setCell testBoard (row dst) (col dst) (cellAt testBoard (row src) (col src));
          testBoard = setCell testBoard (row src) (col src) None
      in isInCheck testBoard clr)"

section \<open>Legal moves (src/lib/chess.ts, lines 87-119)\<close>

text \<open>Lines 95-118 of \<open>getValidMoves\<close> in terms of the functions above: the list that
  \<open>getValidMoves\<close> returns on an 8 x 8 board once line 92 has found the piece \<open>p\<close> on the
  square \<open>src\<close> (lemma \<open>getValidMoves_wf\<close> below).\<close>

definition validMovesOfPiece :: "board \<Rightarrow> position \<Rightarrow> piece \<Rightarrow> move option \<Rightarrow> position list" where
  "validMovesOfPiece board src p lastMove =
     (let moves =
        (case type p of
           Pawn \<Rightarrow> getPawnMoves board src (color p) lastMove
         | Knight \<Rightarrow> getKnightMoves board src (color p)
         | Bishop \<Rightarrow> getBishopMoves board src (color p)
         | Rook \<Rightarrow> getRookMoves board src (color p)
         | Queen \<Rightarrow> getQueenMoves board src (color p)
         | King \<Rightarrow> getKingMoves board src (color p))
      in filter (\<lambda>dst. \<not> wouldBeInCheck board src dst (color p)) moves)"

subsection \<open>\<open>getValidMoves\<close> with every read and write as the source executes it\<close>

text \<open>\<open>getValidMoves\<close> is the function a caller hands an arbitrary position. Here it is
  embedded with everything it executes: each \<open>board[r][c]\<close> of lines 92-118, of the
  generators it calls (the unguarded read of line 139 included), of \<open>wouldBeInCheck\<close>
  (lines 264-267) and of \<open>isInCheck\<close>, \<open>findKing\<close> and \<open>getValidMovesWithoutCheckTest\<close>
  (lines 270-323) is a \<open>readSquare\<close> or a \<open>writeSquare\<close> that raises where the source
  raises, and a raise ends the call. The functions are named after the source function they
  follow, with the suffix \<open>_chk\<close>.\<close>

definition bindE :: "error + 'a \<Rightarrow> ('a \<Rightarrow> error + 'b) \<Rightarrow> error + 'b" where
  "bindE m f = (case m of Inl e \<Rightarrow> Inl e | Inr x \<Rightarrow> f x)"

text \<open>\<open>xs.forEach(x => { ... moves.push(...) ... })\<close>: the pushes of each round, in
  order.\<close>

fun forEachE :: "('a \<Rightarrow> error + 'b list) \<Rightarrow> 'a list \<Rightarrow> error + 'b list" where
  "forEachE f [] = Inr []"
| "forEachE f (x # xs) =
     (case f x of
        Inl e \<Rightarrow> Inl e
      | Inr ys \<Rightarrow> (case forEachE f xs of Inl e \<Rightarrow> Inl e | Inr zs \<Rightarrow> Inr (ys @ zs)))"

text \<open>\<open>xs.filter(x => ...)\<close> with a test that may raise.\<close>

fun filterE :: "('a \<Rightarrow> error + bool) \<Rightarrow> 'a list \<Rightarrow> error + 'a list" where
  "filterE t [] = Inr []"
| "filterE t (x # xs) =
     (case t x of
        Inl e \<Rightarrow> Inl e
      | Inr keep \<Rightarrow>
          (case filterE t xs of
             Inl e \<Rightarrow> Inl e
           | Inr ys \<Rightarrow> Inr (if keep then x # ys else ys)))"

text \<open>A loop that returns \<open>true\<close> at the first element passing the test and \<open>false\<close> after
  the last one: the elements after a hit are not visited.\<close>

fun someE :: "('a \<Rightarrow> error + bool) \<Rightarrow> 'a list \<Rightarrow> error + bool" where
  "someE t [] = Inr False"
| "someE t (x # xs) =
     (case t x of
        Inl e \<Rightarrow> Inl e
      | Inr hit \<Rightarrow> if hit then Inr True else someE t xs)"

text \<open>A loop that returns the first element passing the test, \<open>null\<close> after the last one.\<close>

fun findE :: "('a \<Rightarrow> error + bool) \<Rightarrow> 'a list \<Rightarrow> error + 'a option" where
  "findE t [] = Inr None"
| "findE t (x # xs) =
     (case t x of
        Inl e \<Rightarrow> Inl e
      | Inr hit \<Rightarrow> if hit then Inr (Some x) else findE t xs)"

text \<open>\<open>board[pos.row][pos.col] = v\<close>: a TypeError where the row does not exist. On an
  existing row the element is replaced; at a column beyond the row's end JavaScript grows
  the row, the new elements in between being holes (read as \<open>undefined\<close>). A negative
  column sets a property that is not an element of the array: the elements are unchanged.
  (\<open>wouldBeInCheck\<close> writes to a destination that passed \<open>isValidPosition\<close> and to the
  source square, on which line 92 has found a piece.)\<close>

definition writeSquare :: "board \<Rightarrow> position \<Rightarrow> piece option \<Rightarrow> error + board" where
  "writeSquare board pos v =
     (if 0 \<le> row pos \<and> row pos < int (length board) then
        (let r = board ! nat (row pos) in
         if 0 \<le> col pos \<and> col pos < int (length r)
         then Inr (board[nat (row pos) := r[nat (col pos) := v]])
         else if int (length r) \<le> col pos
         then Inr (board[nat (row pos) := r @ replicate (nat (col pos) - length r) None @ [v]])
         else Inr board)
      else Inl TypeError)"

definition getPawnMoves_chk ::
  "board \<Rightarrow> position \<Rightarrow> pieceColor \<Rightarrow> move option \<Rightarrow> error + position list" where
  "getPawnMoves_chk board src clr lastMove =
     (let direction = (if clr = White then - 1 else 1);
          startRow = (if clr = White then 6 else 1);
          forward = \<lparr>row = row src + direction, col = col src\<rparr>;
          doubleForward = \<lparr>row = row src + 2 * direction, col = col src\<rparr>
      in bindE
           (if isValidPosition forward then
              bindE (readSquare board forward) (\<lambda>ahead.
                if ahead = None then
                  (if row src = startRow then
                     bindE (readSquare board doubleForward) (\<lambda>ahead2.
                       Inr (forward # (if ahead2 = None then [doubleForward] else [])))
                   else Inr [forward])
                else Inr [])
            else Inr [])
           (\<lambda>moves.
              bindE
                (forEachE (\<lambda>colOffset.
                   let capture = \<lparr>row = row src + direction, col = col src + colOffset\<rparr> in
                   if isValidPosition capture then
                     bindE (readSquare board capture) (\<lambda>target.
                       Inr ((case target of
                               Some t \<Rightarrow> if color t \<noteq> clr then [capture] else []
                             | None \<Rightarrow> [])
                            @ (case lastMove of
                                 Some lm \<Rightarrow>
                                   if type (piece lm) = Pawn
                                      \<and> \<bar>row (from lm) - row (to lm)\<bar> = 2
                                      \<and> row (to lm) = row src
                                      \<and> col (to lm) = col capture
                                   then [capture] else []
                               | None \<Rightarrow> [])))
                   else Inr []) [- 1, 1])
                (\<lambda>captures. Inr (moves @ captures))))"

definition getKnightMoves_chk :: "board \<Rightarrow> position \<Rightarrow> pieceColor \<Rightarrow> error + position list" where
  "getKnightMoves_chk board src clr =
     forEachE (\<lambda>(rowOffset, colOffset).
       let dst = \<lparr>row = row src + rowOffset, col = col src + colOffset\<rparr> in
       if isValidPosition dst then
         bindE (readSquare board dst) (\<lambda>target.
           Inr (case target of
                  None \<Rightarrow> [dst]
                | Some t \<Rightarrow> if color t \<noteq> clr then [dst] else []))
       else Inr [])
       [(- 2, - 1), (- 2, 1), (- 1, - 2), (- 1, 2), (1, - 2), (1, 2), (2, - 1), (2, 1)]"

definition getKingMoves_chk :: "board \<Rightarrow> position \<Rightarrow> pieceColor \<Rightarrow> error + position list" where
  "getKingMoves_chk board src clr =
     forEachE (\<lambda>(rowOffset, colOffset).
       let dst = \<lparr>row = row src + rowOffset, col = col src + colOffset\<rparr> in
       if isValidPosition dst then
         bindE (readSquare board dst) (\<lambda>target.
           Inr (case target of
                  None \<Rightarrow> [dst]
                | Some t \<Rightarrow> if color t \<noteq> clr then [dst] else []))
       else Inr [])
       [(- 1, - 1), (- 1, 0), (- 1, 1), (0, - 1), (0, 1), (1, - 1), (1, 0), (1, 1)]"

text \<open>The \<open>while\<close> loop of \<open>getDirectionalMoves\<close> for one direction, as \<open>rayMoves\<close> above
  (with the same conjunct for the direction \<open>(0, 0)\<close>), reading each square with
  \<open>readSquare\<close>.\<close>

function rayMoves_chk ::
  "board \<Rightarrow> pieceColor \<Rightarrow> int \<Rightarrow> int \<Rightarrow> int \<Rightarrow> int \<Rightarrow> error + position list" where
  "rayMoves_chk board clr rowDir colDir r c =
     (if isValidPosition \<lparr>row = r, col = c\<rparr> \<and> (rowDir \<noteq> 0 \<or> colDir \<noteq> 0) then
        (case readSquare board \<lparr>row = r, col = c\<rparr> of
           Inl e \<Rightarrow> Inl e
         | Inr None \<Rightarrow>
             (case rayMoves_chk board clr rowDir colDir (r + rowDir) (c + colDir) of
                Inl e \<Rightarrow> Inl e
              | Inr rest \<Rightarrow> Inr (\<lparr>row = r, col = c\<rparr> # rest))
         | Inr (Some target) \<Rightarrow>
             Inr (if color target \<noteq> clr then [\<lparr>row = r, col = c\<rparr>] else []))
      else Inr [])"
  by pat_completeness auto
termination
  by (relation "measure (\<lambda>(board, clr, rowDir, colDir, r, c).
        if rowDir > 0 then nat (8 - r) else if rowDir < 0 then nat (r + 1)
        else if colDir > 0 then nat (8 - c) else nat (c + 1))")
     (auto simp: isValidPosition_def)

declare rayMoves_chk.simps [simp del]

definition getDirectionalMoves_chk ::
  "board \<Rightarrow> position \<Rightarrow> pieceColor \<Rightarrow> (int \<times> int) list \<Rightarrow> error + position list" where
  "getDirectionalMoves_chk board src clr directions =
     forEachE (\<lambda>(rowDir, colDir).
       rayMoves_chk board clr rowDir colDir (row src + rowDir) (col src + colDir)) directions"

definition getBishopMoves_chk :: "board \<Rightarrow> position \<Rightarrow> pieceColor \<Rightarrow> error + position list" where
  "getBishopMoves_chk board src clr =
     getDirectionalMoves_chk board src clr [(- 1, - 1), (- 1, 1), (1, - 1), (1, 1)]"

definition getRookMoves_chk :: "board \<Rightarrow> position \<Rightarrow> pieceColor \<Rightarrow> error + position list" where
  "getRookMoves_chk board src clr =
     getDirectionalMoves_chk board src clr [(- 1, 0), (1, 0), (0, - 1), (0, 1)]"

definition getQueenMoves_chk :: "board \<Rightarrow> position \<Rightarrow> pieceColor \<Rightarrow> error + position list" where
  "getQueenMoves_chk board src clr =
     getDirectionalMoves_chk board src clr
       [(- 1, - 1), (- 1, 0), (- 1, 1), (0, - 1), (0, 1), (1, - 1), (1, 0), (1, 1)]"

definition getValidMovesWithoutCheckTest_chk :: "board \<Rightarrow> position \<Rightarrow> error + position list" where
  "getValidMovesWithoutCheckTest_chk board src =
     bindE (readSquare board src) (\<lambda>found.
       case found of
         None \<Rightarrow> Inr []
       | Some p \<Rightarrow>
           (case type p of
              Pawn \<Rightarrow> getPawnMoves_chk board src (color p) None
            | Knight \<Rightarrow> getKnightMoves_chk board src (color p)
            | Bishop \<Rightarrow> getBishopMoves_chk board src (color p)
            | Rook \<Rightarrow> getRookMoves_chk board src (color p)
            | Queen \<Rightarrow> getQueenMoves_chk board src (color p)
            | King \<Rightarrow> getKingMoves_chk board src (color p)))"

definition findKing_chk :: "board \<Rightarrow> pieceColor \<Rightarrow> error + position option" where
  "findKing_chk board clr =
     findE (\<lambda>pos.
       bindE (readSquare board pos) (\<lambda>found.
         Inr (case found of
                Some p \<Rightarrow> type p = King \<and> color p = clr
              | None \<Rightarrow> False))) allSquares"

definition isInCheck_chk :: "board \<Rightarrow> pieceColor \<Rightarrow> error + bool" where
  "isInCheck_chk board clr =
     bindE (findKing_chk board clr) (\<lambda>king.
       case king of
         None \<Rightarrow> Inr False
       | Some kingPos \<Rightarrow>
           (let opponentColor = (if clr = White then Black else White) in
            someE (\<lambda>pos.
              bindE (readSquare board pos) (\<lambda>found.
                case found of
                  Some p \<Rightarrow>
                    if color p = opponentColor then
                      bindE (getValidMovesWithoutCheckTest_chk board pos) (\<lambda>moves.
                        Inr (list_ex (\<lambda>m. row m = row kingPos \<and> col m = col kingPos) moves))
                    else Inr False
                | None \<Rightarrow> Inr False)) allSquares))"

definition wouldBeInCheck_chk ::
  "board \<Rightarrow> position \<Rightarrow> position \<Rightarrow> pieceColor \<Rightarrow> error + bool" where
  "wouldBeInCheck_chk board src dst clr =
     (let testBoard = copyBoard board in
      bindE (readSquare testBoard src) (\<lambda>moved.
        bindE (writeSquare testBoard dst moved) (\<lambda>testBoard.
          bindE (writeSquare testBoard src None) (\<lambda>testBoard.
            isInCheck_chk testBoard clr))))"

text \<open>\<open>getValidMoves\<close>: line 92 reads \<open>board[from.row][from.col]\<close> for whatever position
  the caller passes.\<close>

definition getValidMoves :: "board \<Rightarrow> position \<Rightarrow> move option \<Rightarrow> error + position list" where
  "getValidMoves board src lastMove =
     bindE (readSquare board src) (\<lambda>found.
       case found of
         None \<Rightarrow> Inr []
       | Some p \<Rightarrow>
           bindE
             (case type p of
                Pawn \<Rightarrow> getPawnMoves_chk board src (color p) lastMove
              | Knight \<Rightarrow> getKnightMoves_chk board src (color p)
              | Bishop \<Rightarrow> getBishopMoves_chk board src (color p)
              | Rook \<Rightarrow> getRookMoves_chk board src (color p)
              | Queen \<Rightarrow> getQueenMoves_chk board src (color p)
              | King \<Rightarrow> getKingMoves_chk board src (color p))
             (\<lambda>moves.
                filterE (\<lambda>dst.
                  bindE (wouldBeInCheck_chk board src dst (color p)) (\<lambda>inCheck.
                    Inr (\<not> inCheck))) moves))"

text \<open>\<open>isCheckmate\<close>, \<open>isStalemate\<close> and \<open>getAllPossibleMoves\<close> call
  \<open>getValidMoves(board, {row, col})\<close> on a square of their loops where they have just read
  a piece \<open>p\<close>: on an 8 x 8 board the call returns
  \<open>validMovesOfPiece board pos p None\<close> (lemma \<open>getValidMoves_on_piece\<close> below).\<close>

definition isCheckmate :: "board \<Rightarrow> pieceColor \<Rightarrow> bool" where
  "isCheckmate board clr =
     (if \<not> isInCheck board clr then False
      else \<not> list_ex (\<lambda>pos.
             case cellAt board (row pos) (col pos) of
               Some p \<Rightarrow> color p = clr \<and> length (validMovesOfPiece board pos p None) > 0
             | None \<Rightarrow> False) allSquares)"

definition isStalemate :: "board \<Rightarrow> pieceColor \<Rightarrow> bool" where
  "isStalemate board clr =
     (if isInCheck board clr then False
      else \<not> list_ex (\<lambda>pos.
             case cellAt board (row pos) (col pos) of
               Some p \<Rightarrow> color p = clr \<and> length (validMovesOfPiece board pos p None) > 0
             | None \<Rightarrow> False) allSquares)"

section \<open>Scores (src/lib/chessAI.ts)\<close>

text \<open>The scores of the search are JavaScript numbers: the values of \<open>evaluateBoard\<close>
  (multiples of 5 of small size, exact in a double, modelled as \<open>rat\<close>) and the two
  infinities that \<open>minimax\<close> and \<open>getBestMove\<close> start from. The search only compares them
  and takes \<open>Math.max\<close> and \<open>Math.min\<close>.\<close>

datatype number = NegInfinity | Num rat | Infinity

instantiation number :: linorder
begin

fun less_eq_number :: "number \<Rightarrow> number \<Rightarrow> bool" where
  "less_eq_number NegInfinity y = True"
| "less_eq_number (Num x) NegInfinity = False"
| "less_eq_number (Num x) (Num y) = (x \<le> y)"
| "less_eq_number (Num x) Infinity = True"
| "less_eq_number Infinity Infinity = True"
| "less_eq_number Infinity y = False"

definition less_number :: "number \<Rightarrow> number \<Rightarrow> bool" where
  "less_number x y \<longleftrightarrow> x \<le> y \<and> \<not> y \<le> (x::number)"

instance
proof
  fix x y z :: number
  show "(x < y) = (x \<le> y \<and> \<not> y \<le> x)"
    by (simp add: less_number_def)
  show "x \<le> x"
    by (cases x) simp_all
  show "x \<le> y \<Longrightarrow> y \<le> z \<Longrightarrow> x \<le> z"
    by (cases x; cases y; cases z) simp_all
  show "x \<le> y \<Longrightarrow> y \<le> x \<Longrightarrow> x = y"
    by (cases x; cases y) simp_all
  show "x \<le> y \<or> y \<le> x"
    by (cases x; cases y) auto
qed

end

section \<open>Static evaluation (src/lib/chessAI.ts, lines 13-58)\<close>

fun PIECE_VALUES :: "pieceType \<Rightarrow> rat" where
  "PIECE_VALUES Pawn = 100"
| "PIECE_VALUES Knight = 320"
| "PIECE_VALUES Bishop = 330"
| "PIECE_VALUES Rook = 500"
| "PIECE_VALUES Queen = 900"
| "PIECE_VALUES King = 20000"

definition getPositionBonus :: "piece \<Rightarrow> int \<Rightarrow> int \<Rightarrow> rat" where
  "getPositionBonus p r c =
     (let centerBonus = max 0 (3 - \<bar>7 / 2 - of_int r\<bar> - \<bar>7 / 2 - of_int c\<bar>) * 10 in
      if type p = Pawn then
        (let advancementBonus = (if color p = White then (6 - of_int r) * 10 else of_int r * 10)
         in advancementBonus)
      else if type p = Knight \<or> type p = Bishop then centerBonus
      else 0)"

definition evaluateBoard :: "board \<Rightarrow> pieceColor \<Rightarrow> rat" where
  "evaluateBoard board clr =
     fold (\<lambda>pos score.
       case cellAt board (row pos) (col pos) of
         None \<Rightarrow> score
       | Some p \<Rightarrow>
           (let val = PIECE_VALUES (type p);
                positionBonus = getPositionBonus p (row pos) (col pos);
                total = val + positionBonus
            in if color p = clr then score + total else score - total))
       allSquares 0"

section \<open>Search (src/lib/chessAI.ts, lines 60-165)\<close>

definition getAllPossibleMoves :: "board \<Rightarrow> pieceColor \<Rightarrow> fromTo list" where
  "getAllPossibleMoves board clr =
     concat (map (\<lambda>pos.
       case cellAt board (row pos) (col pos) of
         Some p \<Rightarrow>
           if color p = clr then map (\<lambda>dst. (pos, dst)) (validMovesOfPiece board pos p None)
           else []
       | None \<Rightarrow> []) allSquares)"

text \<open>\<open>minimax\<close> with its two \<open>for\<close> loops. The depth is a natural number: \<open>getBestMove\<close>
  passes 0, 1 or 2 and each level passes \<open>depth - 1\<close> of a depth that is not 0. The loops
  carry \<open>maxEval\<close> (\<open>minEval\<close>), \<open>alpha\<close> and \<open>beta\<close>; \<open>break\<close> ends them.\<close>

function (sequential) minimax :: "board \<Rightarrow> nat \<Rightarrow> number \<Rightarrow> number \<Rightarrow> bool \<Rightarrow> pieceColor \<Rightarrow> number"
  and maxLoop :: "board \<Rightarrow> nat \<Rightarrow> pieceColor \<Rightarrow> fromTo list \<Rightarrow> number \<Rightarrow> number \<Rightarrow> number \<Rightarrow> number"
  and minLoop :: "board \<Rightarrow> nat \<Rightarrow> pieceColor \<Rightarrow> fromTo list \<Rightarrow> number \<Rightarrow> number \<Rightarrow> number \<Rightarrow> number"
where
  "minimax board 0 alpha beta maximizing clr = Num (evaluateBoard board clr)"
| "minimax board (Suc depth) alpha beta maximizing clr =
     (let currentColor = (if maximizing then clr else (if clr = White then Black else White)) in
      if isCheckmate board currentColor then (if maximizing then Num (- 999999) else Num 999999)
      else
        (let moves = getAllPossibleMoves board currentColor in
         if length moves = 0 then Num 0
         else if maximizing then maxLoop board depth clr moves NegInfinity alpha beta
         else minLoop board depth clr moves Infinity alpha beta))"
| "maxLoop board depth clr [] maxEval alpha beta = maxEval"
| "maxLoop board depth clr (m # moves) maxEval alpha beta =
     (let newBoard = makeMove board (fst m) (snd m);
          evaluation = minimax newBoard depth alpha beta False clr;
          maxEval = max maxEval evaluation;
          alpha = max alpha evaluation
      in if beta \<le> alpha then maxEval
         else maxLoop board depth clr moves maxEval alpha beta)"
| "minLoop board depth clr [] minEval alpha beta = minEval"
| "minLoop board depth clr (m # moves) minEval alpha beta =
     (let newBoard = makeMove board (fst m) (snd m);
          evaluation = minimax newBoard depth alpha beta True clr;
          minEval = min minEval evaluation;
          beta = min beta evaluation
      in if beta \<le> alpha then minEval
         else minLoop board depth clr moves minEval alpha beta)"
  by pat_completeness auto
termination
  by (relation "inv_image (less_than <*lex*> less_than)
        (\<lambda>x. case x of
           Inl (board, depth, alpha, beta, maximizing, clr) \<Rightarrow> (depth, 0)
         | Inr (Inl (board, depth, clr, moves, maxEval, alpha, beta)) \<Rightarrow>
             (depth, Suc (length moves))
         | Inr (Inr (board, depth, clr, moves, minEval, alpha, beta)) \<Rightarrow>
             (depth, Suc (length moves)))")
     auto

datatype difficulty = Easy | Medium | Hard

definition depthOf :: "difficulty \<Rightarrow> nat" where
  "depthOf d = (if d = Easy then 1 else if d = Medium then 2 else 3)"

text \<open>The loop of lines 154-162 of \<open>getBestMove\<close>, carrying \<open>bestMove\<close> and \<open>bestValue\<close>;
  \<open>d\<close> is \<open>depth - 1\<close>.\<close>

fun bestLoop :: "board \<Rightarrow> pieceColor \<Rightarrow> nat \<Rightarrow> fromTo list \<Rightarrow> fromTo \<Rightarrow> number \<Rightarrow> fromTo" where
  "bestLoop board clr d [] bestMove bestValue = bestMove"
| "bestLoop board clr d (m # moves) bestMove bestValue =
     (let newBoard = makeMove board (fst m) (snd m);
          val = minimax newBoard d NegInfinity Infinity False clr
      in if val > bestValue then bestLoop board clr d moves m val
         else bestLoop board clr d moves bestMove bestValue)"

text \<open>\<open>xs[i]\<close> of an array: \<open>undefined\<close> (here \<open>None\<close>) outside the array.\<close>

definition element :: "'a list \<Rightarrow> int \<Rightarrow> 'a option" where
  "element xs i = (if 0 \<le> i \<and> i < int (length xs) then Some (xs ! nat i) else None)"

text \<open>\<open>getBestMove\<close>. The result \<open>None\<close> is \<open>null\<close>. \<open>rnd k\<close> is what the \<open>k\<close>-th call of
  \<open>Math.random()\<close> returns (counted from 0); the calls are made in this order: line 143
  (only at \<open>easy\<close>), then line 145 (only if there is a capture), then line 146 or 148.
  The draws and their products are taken as exact rationals.\<close>

definition getBestMove :: "board \<Rightarrow> pieceColor \<Rightarrow> difficulty \<Rightarrow> (nat \<Rightarrow> rat) \<Rightarrow> fromTo option" where
  "getBestMove board clr d rnd =
     (let depth = depthOf d;
          moves = getAllPossibleMoves board clr
      in if length moves = 0 then None
         else if d = Easy \<and> rnd 0 < 1 / 2 then
           (let captures = filter (\<lambda>m. cellAt board (row (snd m)) (col (snd m)) \<noteq> None) moves in
            if length captures > 0 \<and> rnd 1 < 7 / 10
            then element captures \<lfloor>rnd 2 * of_nat (length captures)\<rfloor>
            else element moves
                   \<lfloor>rnd (if length captures > 0 then 2 else 1) * of_nat (length moves)\<rfloor>)
         else Some (bestLoop board clr (depth - 1) moves (hd moves) NegInfinity))"

section \<open>The search without pruning\<close>

text \<open>The search that the specification compares \<open>getBestMove\<close> with: the recursion of
  \<open>minimax\<close> without \<open>alpha\<close>, \<open>beta\<close> and the two \<open>break\<close>s, so that a node takes the
  greatest (least) value of all its children.\<close>

function minimaxFull :: "board \<Rightarrow> nat \<Rightarrow> bool \<Rightarrow> pieceColor \<Rightarrow> number" where
  "minimaxFull board 0 maximizing clr = Num (evaluateBoard board clr)"
| "minimaxFull board (Suc depth) maximizing clr =
     (let currentColor = (if maximizing then clr else (if clr = White then Black else White)) in
      if isCheckmate board currentColor then (if maximizing then Num (- 999999) else Num 999999)
      else
        (let moves = getAllPossibleMoves board currentColor in
         if length moves = 0 then Num 0
         else if maximizing
           then fold max (map (\<lambda>m. minimaxFull (makeMove board (fst m) (snd m)) depth False clr) moves)
                  NegInfinity
           else fold min (map (\<lambda>m. minimaxFull (makeMove board (fst m) (snd m)) depth True clr) moves)
                  Infinity))"
  by pat_completeness auto
termination
  by (relation "measure (\<lambda>(board, depth, maximizing, clr). depth)") auto

text \<open>The move of the unpruned search: the first move, in the order of
  \<open>getAllPossibleMoves\<close>, whose score no other move exceeds; none when there is no move.\<close>

definition fullSearchMove :: "board \<Rightarrow> pieceColor \<Rightarrow> nat \<Rightarrow> fromTo option" where
  "fullSearchMove board clr depth =
     (let moves = getAllPossibleMoves board clr;
          score = (\<lambda>m. minimaxFull (makeMove board (fst m) (snd m)) (depth - 1) False clr)
      in find (\<lambda>m. \<forall>m' \<in> set moves. score m' \<le> score m) moves)"

text \<open>What a search with the window \<open>(lo, hi)\<close> may return for a node whose unpruned value is
  \<open>exact\<close>: a result at or below \<open>lo\<close> is an upper bound of the value, a result at or above
  \<open>hi\<close> is a lower bound, and a result strictly inside the window is the value.\<close>

definition windowed :: "number \<Rightarrow> number \<Rightarrow> number \<Rightarrow> number \<Rightarrow> bool" where
  "windowed lo hi exact got \<longleftrightarrow>
     (got \<le> lo \<longrightarrow> exact \<le> got)
     \<and> (hi \<le> got \<longrightarrow> got \<le> exact)
     \<and> (lo < got \<and> got < hi \<longrightarrow> got = exact)"

section \<open>Boards used as instances\<close>

definition emptyRow :: "piece option list" where "emptyRow = replicate 8 None"

definition mateBoard :: board where
  "mateBoard =
    [ [blackPiece King, None, None, None, None, None, None, None],
      [None, whitePiece Queen, None, None, None, None, None, None],
      [None, None, whitePiece King, None, None, None, None, None],
      emptyRow, emptyRow, emptyRow, emptyRow, emptyRow ]"

definition staleBoard :: board where
  "staleBoard =
    [ [blackPiece King, None, None, None, None, None, None, None],
      [None, None, whitePiece Queen, None, None, None, None, None],
      [None, whitePiece King, None, None, None, None, None, None],
      emptyRow, emptyRow, emptyRow, emptyRow, emptyRow ]"

definition pawnBoard :: board where
  "pawnBoard =
    [ emptyRow,
      [None, None, None, None, None, None, None, blackPiece Pawn],
      emptyRow, emptyRow, emptyRow, emptyRow,
      [whitePiece Pawn, None, None, None, None, None, None, None],
      emptyRow ]"

section \<open>Boards as 8 x 8 grids\<close>

lemma copyBoard_id: "copyBoard board = board"
proof -
  have "(\<lambda>p::piece option. case p of Some q \<Rightarrow> Some q | None \<Rightarrow> None) = id"
    by (auto split: option.splits)
  then show ?thesis
    by (simp add: copyBoard_def)
qed

lemma wf_board_row: "wf_board b \<Longrightarrow> n < 8 \<Longrightarrow> length (b ! n) = 8"
  by (simp add: wf_board_def)

lemma cellAt_wf:
  "wf_board b \<Longrightarrow> cellAt b r c = (if 0 \<le> r \<and> r < 8 \<and> 0 \<le> c \<and> c < 8 then b ! nat r ! nat c else None)"
  by (auto simp: cellAt_def wf_board_def)

lemma setCell_wf:
  "wf_board b \<Longrightarrow> setCell b r c v =
     (if 0 \<le> r \<and> r < 8 \<and> 0 \<le> c \<and> c < 8 then b[nat r := (b ! nat r)[nat c := v]] else b)"
  by (auto simp: setCell_def wf_board_def)

lemma wf_board_setCell: "wf_board b \<Longrightarrow> wf_board (setCell b r c v)"
proof -
  assume wf: "wf_board b"
  have "length x = 8" if "x \<in> set (b[nat r := (b ! nat r)[nat c := v]])" and "0 \<le> r" "r < 8" for x
  proof -
    from that(1) have "x \<in> insert ((b ! nat r)[nat c := v]) (set b)"
      using set_update_subset_insert by fastforce
    moreover have "length ((b ! nat r)[nat c := v]) = 8"
      using wf that(2,3) by (simp add: wf_board_row)
    ultimately show ?thesis
      using wf by (auto simp: wf_board_def)
  qed
  then show ?thesis
    using wf by (auto simp: setCell_wf) (auto simp: wf_board_def)
qed

lemma cellAt_setCell:
  assumes "wf_board b" and "0 \<le> r" "r < 8" "0 \<le> c" "c < 8"
  shows "cellAt (setCell b r c v) r' c' = (if r' = r \<and> c' = c then v else cellAt b r' c')"
proof -
  have wf': "wf_board (setCell b r c v)"
    using assms(1) by (rule wf_board_setCell)
  have len: "length b = 8"
    using assms(1) by (simp add: wf_board_def)
  show ?thesis
  proof (cases "0 \<le> r' \<and> r' < 8 \<and> 0 \<le> c' \<and> c' < 8")
    case False
    then show ?thesis
      using assms by (auto simp: cellAt_wf [OF wf'] cellAt_wf [OF assms(1)])
  next
    case True
    have "nat r < 8" "nat r' < 8"
      using True assms(2,3) by auto
    then have rows: "length (b ! nat r) = 8" "length (b ! nat r') = 8"
      using assms(1) by (simp_all add: wf_board_row)
    have "cellAt (setCell b r c v) r' c' = setCell b r c v ! nat r' ! nat c'"
      using True by (simp add: cellAt_wf [OF wf'])
    also have "\<dots> = (if r' = r \<and> c' = c then v else b ! nat r' ! nat c')"
      using True assms(2-5) len rows
      by (auto simp: setCell_wf [OF assms(1)] nth_list_update nat_eq_iff)
    also have "\<dots> = (if r' = r \<and> c' = c then v else cellAt b r' c')"
      using True by (simp add: cellAt_wf [OF assms(1)])
    finally show ?thesis .
  qed
qed

lemma board_eqI:
  assumes "wf_board a" and "wf_board b"
    and "\<And>r c. 0 \<le> r \<Longrightarrow> r < 8 \<Longrightarrow> 0 \<le> c \<Longrightarrow> c < 8 \<Longrightarrow> cellAt a r c = cellAt b r c"
  shows "a = b"
proof (rule nth_equalityI)
  show "length a = length b"
    using assms(1,2) by (simp add: wf_board_def)
next
  fix i
  assume "i < length a"
  then have i: "i < 8"
    using assms(1) by (simp add: wf_board_def)
  show "a ! i = b ! i"
  proof (rule nth_equalityI)
    show "length (a ! i) = length (b ! i)"
      using i assms(1,2) by (simp add: wf_board_row)
  next
    fix j
    assume "j < length (a ! i)"
    then have j: "j < 8"
      using i assms(1) by (simp add: wf_board_row)
    have "cellAt a (int i) (int j) = cellAt b (int i) (int j)"
      using i j by (intro assms(3)) simp_all
    then show "a ! i ! j = b ! i ! j"
      using i j by (simp add: cellAt_wf [OF assms(1)] cellAt_wf [OF assms(2)])
  qed
qed

lemma wf_board_makeMove: "wf_board b \<Longrightarrow> wf_board (makeMove b src dst)"
  by (simp add: makeMove_def Let_def copyBoard_id wf_board_setCell)

lemma cellAt_makeMove:
  assumes "wf_board b" and "isValidPosition src" and "isValidPosition dst"
  shows "cellAt (makeMove b src dst) r c =
           (if r = row src \<and> c = col src then None
            else if r = row dst \<and> c = col dst then cellAt b (row src) (col src)
            else cellAt b r c)"
  using assms
  by (simp add: makeMove_def Let_def copyBoard_id isValidPosition_def
        cellAt_setCell wf_board_setCell)


section \<open>Applying moves\<close>

lemma position_neq: "(src::position) \<noteq> dst \<Longrightarrow> row src \<noteq> row dst \<or> col src \<noteq> col dst"
  by (cases src; cases dst) simp

text \<open>Claim C9. On an 8 x 8 board, for two different in-range squares \<open>src\<close> and \<open>dst\<close>,
  moving \<open>src\<close> to \<open>dst\<close> and then \<open>dst\<close> back to \<open>src\<close> gives a board that has every square
  of the first board except \<open>dst\<close>, which is empty: what stood on \<open>dst\<close> is not restored. When
  \<open>dst\<close> was empty the round trip gives the first board back. (The piece on \<open>src\<close> is not
  needed for this.)\<close>

theorem makeMove_round_trip:
  assumes "wf_board b" and "isValidPosition src" and "isValidPosition dst" and "src \<noteq> dst"
  shows "(\<forall>r c. cellAt (makeMove (makeMove b src dst) dst src) r c =
                (if r = row dst \<and> c = col dst then None else cellAt b r c))
       \<and> (cellAt b (row dst) (col dst) = None \<longrightarrow> makeMove (makeMove b src dst) dst src = b)"
proof -
  let ?b1 = "makeMove b src dst"
  let ?b2 = "makeMove ?b1 dst src"
  have wf1: "wf_board ?b1" and wf2: "wf_board ?b2"
    using assms(1) by (simp_all add: wf_board_makeMove)
  have ne: "row src \<noteq> row dst \<or> col src \<noteq> col dst"
    using assms(4) by (rule position_neq)
  have cells: "cellAt ?b2 r c = (if r = row dst \<and> c = col dst then None else cellAt b r c)" for r c
    using ne
    by (auto simp: cellAt_makeMove [OF wf1 assms(3) assms(2)]
          cellAt_makeMove [OF assms(1) assms(2) assms(3)])
  have "?b2 = b" if "cellAt b (row dst) (col dst) = None"
  proof (rule board_eqI [OF wf2 assms(1)])
    fix r c :: int
    show "cellAt ?b2 r c = cellAt b r c"
      using that by (simp add: cells)
  qed
  with cells show ?thesis
    by blast
qed

theorem makeMove_round_trip_witness:
  "wf_board INITIAL_BOARD \<and> isValidPosition \<lparr>row = 6, col = 4\<rparr>
   \<and> isValidPosition \<lparr>row = 4, col = 4\<rparr>
   \<and> cellAt INITIAL_BOARD 4 4 = None
   \<and> makeMove (makeMove INITIAL_BOARD \<lparr>row = 6, col = 4\<rparr> \<lparr>row = 4, col = 4\<rparr>)
        \<lparr>row = 4, col = 4\<rparr> \<lparr>row = 6, col = 4\<rparr> = INITIAL_BOARD"
proof -
  have wf: "wf_board INITIAL_BOARD"
    by (simp add: wf_board_def INITIAL_BOARD_def)
  have v1: "isValidPosition \<lparr>row = 6, col = 4\<rparr>" and v2: "isValidPosition \<lparr>row = 4, col = 4\<rparr>"
    by (simp_all add: isValidPosition_def)
  have ne: "\<lparr>row = 6, col = 4\<rparr> \<noteq> \<lparr>row = 4, col = (4::int)\<rparr>"
    by simp
  have empty: "cellAt INITIAL_BOARD 4 4 = None"
    by (simp add: cellAt_def INITIAL_BOARD_def)
  show ?thesis
    using makeMove_round_trip [OF wf v1 v2 ne] wf v1 v2 empty by simp
qed

text \<open>Claim C10. On an 8 x 8 board, a move whose source and destination are the same in-range
  square \<open>p\<close>, holding a piece, deletes that piece: \<open>p\<close> is empty afterwards, the other
  squares are unchanged, and the board is not the board it was.\<close>

theorem makeMove_same_square:
  assumes "wf_board b" and "isValidPosition p" and "cellAt b (row p) (col p) \<noteq> None"
  shows "cellAt (makeMove b p p) (row p) (col p) = None
       \<and> makeMove b p p \<noteq> b
       \<and> (\<forall>r c. cellAt (makeMove b p p) r c =
                  (if r = row p \<and> c = col p then None else cellAt b r c))"
proof -
  have cells: "cellAt (makeMove b p p) r c = (if r = row p \<and> c = col p then None else cellAt b r c)"
    for r c
    by (simp add: cellAt_makeMove [OF assms(1) assms(2) assms(2)])
  then have gone: "cellAt (makeMove b p p) (row p) (col p) = None"
    by simp
  with assms(3) have "makeMove b p p \<noteq> b"
    by metis
  with gone cells show ?thesis
    by blast
qed

theorem makeMove_same_square_witness:
  "wf_board INITIAL_BOARD \<and> isValidPosition \<lparr>row = 6, col = 4\<rparr>
   \<and> cellAt INITIAL_BOARD 6 4 = whitePiece Pawn
   \<and> cellAt (makeMove INITIAL_BOARD \<lparr>row = 6, col = 4\<rparr> \<lparr>row = 6, col = 4\<rparr>) 6 4 = None"
proof -
  have wf: "wf_board INITIAL_BOARD"
    by (simp add: wf_board_def INITIAL_BOARD_def)
  have v: "isValidPosition \<lparr>row = 6, col = 4\<rparr>"
    by (simp add: isValidPosition_def)
  have p: "cellAt INITIAL_BOARD 6 4 = whitePiece Pawn"
    by (simp add: cellAt_def INITIAL_BOARD_def eval_nat_numeral)
  then have "cellAt INITIAL_BOARD (row \<lparr>row = 6, col = 4\<rparr>) (col \<lparr>row = 6, col = 4\<rparr>) \<noteq> None"
    by (simp add: whitePiece_def)
  from makeMove_same_square [OF wf v this] wf v p show ?thesis
    by simp
qed

section \<open>The instances are 8 x 8 boards\<close>

lemma wf_INITIAL_BOARD: "wf_board INITIAL_BOARD"
  by (simp add: wf_board_def INITIAL_BOARD_def)

lemma wf_mateBoard: "wf_board mateBoard"
  by (simp add: wf_board_def mateBoard_def emptyRow_def)

lemma wf_staleBoard: "wf_board staleBoard"
  by (simp add: wf_board_def staleBoard_def emptyRow_def)

lemma wf_pawnBoard: "wf_board pawnBoard"
  by (simp add: wf_board_def pawnBoard_def emptyRow_def)

section \<open>The generators stay on the board\<close>

lemma rayMoves_valid:
  "p \<in> set (rayMoves board clr rowDir colDir r c) \<Longrightarrow> isValidPosition p"
proof (induction board clr rowDir colDir r c rule: rayMoves.induct)
  case (1 board clr rowDir colDir r c)
  show ?case
  proof (cases "isValidPosition \<lparr>row = r, col = c\<rparr> \<and> (rowDir \<noteq> 0 \<or> colDir \<noteq> 0)")
    case False
    with "1.prems" show ?thesis
      by (simp add: rayMoves.simps [of board clr rowDir colDir r c])
  next
    case True
    show ?thesis
    proof (cases "cellAt board r c")
      case None
      with True "1.prems" have "p = \<lparr>row = r, col = c\<rparr>
          \<or> p \<in> set (rayMoves board clr rowDir colDir (r + rowDir) (c + colDir))"
        by (simp add: rayMoves.simps [of board clr rowDir colDir r c])
      with True None "1.IH" show ?thesis
        by auto
    next
      case (Some target)
      with True "1.prems" show ?thesis
        by (simp add: rayMoves.simps [of board clr rowDir colDir r c] split: if_splits)
    qed
  qed
qed

lemma getDirectionalMoves_valid:
  "p \<in> set (getDirectionalMoves board src clr directions) \<Longrightarrow> isValidPosition p"
  by (auto simp: getDirectionalMoves_def dest: rayMoves_valid)

lemma offset_moves_valid:
  "p \<in> set (concat (map (\<lambda>(rowOffset, colOffset).
       let dst = \<lparr>row = row src + rowOffset, col = col src + colOffset\<rparr> in
       if isValidPosition dst then
         (case cellAt board (row dst) (col dst) of
            None \<Rightarrow> [dst]
          | Some target \<Rightarrow> if color target \<noteq> clr then [dst] else [])
       else []) offsets))
   \<Longrightarrow> isValidPosition p"
  by (induction offsets) (auto simp: Let_def split: if_splits option.splits)

lemma getKnightMoves_valid: "p \<in> set (getKnightMoves board src clr) \<Longrightarrow> isValidPosition p"
  unfolding getKnightMoves_def by (rule offset_moves_valid)

lemma getKingMoves_valid: "p \<in> set (getKingMoves board src clr) \<Longrightarrow> isValidPosition p"
  unfolding getKingMoves_def by (rule offset_moves_valid)

lemma pawn_captures_valid:
  "p \<in> set (concat (map (\<lambda>colOffset.
       let capture = \<lparr>row = r, col = col src + colOffset\<rparr> in
       if isValidPosition capture then f capture @ g capture else []) offsets))
   \<Longrightarrow> (\<And>q. set (f q) \<subseteq> {q}) \<Longrightarrow> (\<And>q. set (g q) \<subseteq> {q}) \<Longrightarrow> isValidPosition p"
proof (induction offsets)
  case Nil
  then show ?case by simp
next
  case (Cons x offsets)
  let ?capture = "\<lparr>row = r, col = col src + x\<rparr>"
  from Cons.prems(1) consider
      (here) "isValidPosition ?capture" "p \<in> set (f ?capture) \<or> p \<in> set (g ?capture)"
    | (later) "p \<in> set (concat (map (\<lambda>colOffset.
         let capture = \<lparr>row = r, col = col src + colOffset\<rparr> in
         if isValidPosition capture then f capture @ g capture else []) offsets))"
    by (auto simp: Let_def split: if_splits)
  then show ?case
  proof cases
    case here
    with Cons.prems(2) [of ?capture] Cons.prems(3) [of ?capture] have "p = ?capture"
      by auto
    with here(1) show ?thesis
      by simp
  next
    case later
    then show ?thesis
      using Cons.prems(2,3) by (rule Cons.IH)
  qed
qed

lemma pawn_forward_valid:
  assumes "p \<in> set (if isValidPosition \<lparr>row = r + d, col = c\<rparr> \<and> e1
                     then \<lparr>row = r + d, col = c\<rparr> #
                       (if r = s then (if e2 then [\<lparr>row = r + 2 * d, col = c\<rparr>] else []) else [])
                     else [])"
    and "(d = - 1 \<and> s = 6) \<or> (d = 1 \<and> s = 1)"
  shows "isValidPosition p"
proof -
  from assms(1) have valid: "isValidPosition \<lparr>row = r + d, col = c\<rparr>"
    and p: "p = \<lparr>row = r + d, col = c\<rparr> \<or> (r = s \<and> p = \<lparr>row = r + 2 * d, col = c\<rparr>)"
    by (auto split: if_splits)
  from p show ?thesis
  proof
    assume "p = \<lparr>row = r + d, col = c\<rparr>"
    with valid show ?thesis by simp
  next
    assume "r = s \<and> p = \<lparr>row = r + 2 * d, col = c\<rparr>"
    with valid assms(2) show ?thesis
      by (auto simp: isValidPosition_def)
  qed
qed

lemma getPawnMoves_valid:
  assumes "p \<in> set (getPawnMoves board src clr lastMove)"
  shows "isValidPosition p"
proof -
  let ?d = "if clr = White then - 1 else (1::int)"
  let ?s = "if clr = White then 6 else (1::int)"
  let ?fwd = "if isValidPosition \<lparr>row = row src + ?d, col = col src\<rparr>
                   \<and> cellAt board (row src + ?d) (col src) = None
              then \<lparr>row = row src + ?d, col = col src\<rparr> #
                (if row src = ?s
                 then (if cellAt board (row src + 2 * ?d) (col src) = None
                       then [\<lparr>row = row src + 2 * ?d, col = col src\<rparr>] else [])
                 else [])
              else []"
  let ?f = "\<lambda>capture. case cellAt board (row capture) (col capture) of
              Some target \<Rightarrow> if color target \<noteq> clr then [capture] else []
            | None \<Rightarrow> []"
  let ?g = "\<lambda>capture. case lastMove of
              Some lm \<Rightarrow>
                if type (piece lm) = Pawn \<and> \<bar>row (from lm) - row (to lm)\<bar> = 2
                   \<and> row (to lm) = row src \<and> col (to lm) = col capture
                then [capture] else []
            | None \<Rightarrow> []"
  let ?caps = "concat (map (\<lambda>colOffset.
       let capture = \<lparr>row = row src + ?d, col = col src + colOffset\<rparr> in
       if isValidPosition capture then ?f capture @ ?g capture else []) [- 1, 1])"
  have "getPawnMoves board src clr lastMove = ?fwd @ ?caps"
    by (simp add: getPawnMoves_def Let_def)
  with assms have "p \<in> set ?fwd \<or> p \<in> set ?caps"
    by (simp only: set_append Un_iff)
  then show ?thesis
  proof
    assume "p \<in> set ?fwd"
    moreover have "(?d = - 1 \<and> ?s = 6) \<or> (?d = 1 \<and> ?s = 1)"
      by simp
    ultimately show ?thesis
      by (rule pawn_forward_valid)
  next
    assume "p \<in> set ?caps"
    moreover have "set (?f q) \<subseteq> {q}" for q
      by (auto split: option.splits)
    moreover have "set (?g q) \<subseteq> {q}" for q
      by (auto split: option.splits)
    ultimately show ?thesis
      by (rule pawn_captures_valid)
  qed
qed

lemma pseudo_valid:
  assumes "p \<in> set (getValidMovesWithoutCheckTest board src)"
  shows "isValidPosition p"
proof (cases "cellAt board (row src) (col src)")
  case None
  with assms show ?thesis
    by (simp add: getValidMovesWithoutCheckTest_def)
next
  case (Some q)
  with assms show ?thesis
    by (cases "type q")
      (auto simp: getValidMovesWithoutCheckTest_def getBishopMoves_def getRookMoves_def
         getQueenMoves_def
       dest: getPawnMoves_valid getKnightMoves_valid getKingMoves_valid getDirectionalMoves_valid)
qed

lemma validMovesOfPiece_valid:
  "p \<in> set (validMovesOfPiece board src q lastMove) \<Longrightarrow> isValidPosition p"
  by (cases "type q")
    (auto simp: validMovesOfPiece_def getBishopMoves_def getRookMoves_def getQueenMoves_def
     dest: getPawnMoves_valid getKnightMoves_valid getKingMoves_valid getDirectionalMoves_valid)

lemma getBishopMoves_valid: "p \<in> set (getBishopMoves board src clr) \<Longrightarrow> isValidPosition p"
  unfolding getBishopMoves_def by (rule getDirectionalMoves_valid)

lemma getRookMoves_valid: "p \<in> set (getRookMoves board src clr) \<Longrightarrow> isValidPosition p"
  unfolding getRookMoves_def by (rule getDirectionalMoves_valid)

lemma getQueenMoves_valid: "p \<in> set (getQueenMoves board src clr) \<Longrightarrow> isValidPosition p"
  unfolding getQueenMoves_def by (rule getDirectionalMoves_valid)

section \<open>On an 8 x 8 board no read or write of \<open>getValidMoves\<close> raises\<close>

lemma bindE_Inr: "bindE (Inr x) f = f x"
  by (simp add: bindE_def)

lemma bindE_Inl: "bindE (Inl e) f = Inl e"
  by (simp add: bindE_def)

lemma forEachE_Inr:
  assumes "\<And>x. x \<in> set xs \<Longrightarrow> f x = Inr (g x)"
  shows "forEachE f xs = Inr (concat (map g xs))"
  using assms by (induction xs) simp_all

lemma filterE_Inr:
  assumes "\<And>x. x \<in> set xs \<Longrightarrow> t x = Inr (q x)"
  shows "filterE t xs = Inr (filter q xs)"
  using assms by (induction xs) simp_all

lemma someE_Inr:
  assumes "\<And>x. x \<in> set xs \<Longrightarrow> t x = Inr (q x)"
  shows "someE t xs = Inr (list_ex q xs)"
  using assms by (induction xs) simp_all

lemma findE_Inr:
  assumes "\<And>x. x \<in> set xs \<Longrightarrow> t x = Inr (q x)"
  shows "findE t xs = Inr (find q xs)"
  using assms by (induction xs) simp_all

lemma allSquares_range:
  "pos \<in> set allSquares \<Longrightarrow> 0 \<le> row pos \<and> row pos < 8 \<and> 0 \<le> col pos \<and> col pos < 8"
  by (auto simp: allSquares_def indices_def)

lemma readSquare_rows:
  "wf_board board \<Longrightarrow> 0 \<le> row pos \<Longrightarrow> row pos < 8 \<Longrightarrow>
     readSquare board pos = Inr (cellAt board (row pos) (col pos))"
  by (simp add: readSquare_def wf_board_def)

lemma readSquare_valid:
  "wf_board board \<Longrightarrow> isValidPosition pos \<Longrightarrow>
     readSquare board pos = Inr (cellAt board (row pos) (col pos))"
  by (simp add: readSquare_rows isValidPosition_def)

lemma readSquare_bad_row:
  "wf_board board \<Longrightarrow> \<not> (0 \<le> row pos \<and> row pos < 8) \<Longrightarrow> readSquare board pos = Inl TypeError"
  by (auto simp: readSquare_def wf_board_def)

lemma writeSquare_valid:
  assumes "wf_board board" and "isValidPosition pos"
  shows "writeSquare board pos v = Inr (setCell board (row pos) (col pos) v)"
proof -
  have r: "0 \<le> row pos" "row pos < 8" "0 \<le> col pos" "col pos < 8"
    using assms(2) by (simp_all add: isValidPosition_def)
  then have "nat (row pos) < 8"
    by simp
  then have "length (board ! nat (row pos)) = 8"
    using assms(1) by (simp add: wf_board_row)
  moreover have "length board = 8"
    using assms(1) by (simp add: wf_board_def)
  ultimately show ?thesis
    using r by (simp add: writeSquare_def setCell_def Let_def)
qed

lemma offset_moves_chk:
  assumes "wf_board board"
  shows "forEachE (\<lambda>(rowOffset, colOffset).
           let dst = \<lparr>row = row src + rowOffset, col = col src + colOffset\<rparr> in
           if isValidPosition dst then
             bindE (readSquare board dst) (\<lambda>target.
               Inr (case target of
                      None \<Rightarrow> [dst]
                    | Some t \<Rightarrow> if color t \<noteq> clr then [dst] else []))
           else Inr []) offsets
         = Inr (concat (map (\<lambda>(rowOffset, colOffset).
             let dst = \<lparr>row = row src + rowOffset, col = col src + colOffset\<rparr> in
             if isValidPosition dst then
               (case cellAt board (row dst) (col dst) of
                  None \<Rightarrow> [dst]
                | Some target \<Rightarrow> if color target \<noteq> clr then [dst] else [])
             else []) offsets))"
proof (rule forEachE_Inr)
  fix x :: "int \<times> int"
  obtain ro co where x: "x = (ro, co)"
    by (cases x)
  let ?dst = "\<lparr>row = row src + ro, col = col src + co\<rparr>"
  show "(case x of (rowOffset, colOffset) \<Rightarrow>
           let dst = \<lparr>row = row src + rowOffset, col = col src + colOffset\<rparr> in
           if isValidPosition dst then
             bindE (readSquare board dst) (\<lambda>target.
               Inr (case target of
                      None \<Rightarrow> [dst]
                    | Some t \<Rightarrow> if color t \<noteq> clr then [dst] else []))
           else Inr [])
        = Inr (case x of (rowOffset, colOffset) \<Rightarrow>
             let dst = \<lparr>row = row src + rowOffset, col = col src + colOffset\<rparr> in
             if isValidPosition dst then
               (case cellAt board (row dst) (col dst) of
                  None \<Rightarrow> [dst]
                | Some target \<Rightarrow> if color target \<noteq> clr then [dst] else [])
             else [])"
  proof (cases "isValidPosition ?dst")
    case True
    then show ?thesis
      using readSquare_valid [OF assms True] by (simp add: x Let_def bindE_Inr)
  next
    case False
    then show ?thesis
      by (simp add: x Let_def)
  qed
qed

lemma getKnightMoves_chk_wf:
  "wf_board board \<Longrightarrow> getKnightMoves_chk board src clr = Inr (getKnightMoves board src clr)"
  unfolding getKnightMoves_chk_def getKnightMoves_def by (rule offset_moves_chk)

lemma getKingMoves_chk_wf:
  "wf_board board \<Longrightarrow> getKingMoves_chk board src clr = Inr (getKingMoves board src clr)"
  unfolding getKingMoves_chk_def getKingMoves_def by (rule offset_moves_chk)

lemma rayMoves_chk_wf:
  "wf_board board \<Longrightarrow>
     rayMoves_chk board clr rowDir colDir r c = Inr (rayMoves board clr rowDir colDir r c)"
proof (induction board clr rowDir colDir r c rule: rayMoves.induct)
  case (1 board clr rowDir colDir r c)
  note wf = "1.prems"
  define ok where "ok \<longleftrightarrow> isValidPosition \<lparr>row = r, col = c\<rparr> \<and> (rowDir \<noteq> 0 \<or> colDir \<noteq> 0)"
  have pure: "rayMoves board clr rowDir colDir r c =
     (if ok then
        (case cellAt board r c of
           None \<Rightarrow> \<lparr>row = r, col = c\<rparr> # rayMoves board clr rowDir colDir (r + rowDir) (c + colDir)
         | Some target \<Rightarrow> (if color target \<noteq> clr then [\<lparr>row = r, col = c\<rparr>] else []))
      else [])"
    unfolding ok_def by (rule rayMoves.simps)
  have chk: "rayMoves_chk board clr rowDir colDir r c =
     (if ok then
        (case readSquare board \<lparr>row = r, col = c\<rparr> of
           Inl e \<Rightarrow> Inl e
         | Inr None \<Rightarrow>
             (case rayMoves_chk board clr rowDir colDir (r + rowDir) (c + colDir) of
                Inl e \<Rightarrow> Inl e
              | Inr rest \<Rightarrow> Inr (\<lparr>row = r, col = c\<rparr> # rest))
         | Inr (Some target) \<Rightarrow>
             Inr (if color target \<noteq> clr then [\<lparr>row = r, col = c\<rparr>] else []))
      else Inr [])"
    unfolding ok_def by (rule rayMoves_chk.simps)
  show ?case
  proof (cases ok)
    case False
    then show ?thesis
      by (simp add: pure chk)
  next
    case True
    then have valid: "isValidPosition \<lparr>row = r, col = c\<rparr>" and dir: "rowDir \<noteq> 0 \<or> colDir \<noteq> 0"
      by (simp_all add: ok_def)
    have read: "readSquare board \<lparr>row = r, col = c\<rparr> = Inr (cellAt board r c)"
      using readSquare_valid [OF wf valid] by simp
    show ?thesis
    proof (cases "cellAt board r c")
      case None
      have "rayMoves_chk board clr rowDir colDir (r + rowDir) (c + colDir)
              = Inr (rayMoves board clr rowDir colDir (r + rowDir) (c + colDir))"
        using valid dir None wf by (intro "1.IH") simp_all
      then show ?thesis
        using True None read by (simp add: pure chk)
    next
      case (Some target)
      then show ?thesis
        using True read by (simp add: pure chk)
    qed
  qed
qed

lemma getDirectionalMoves_chk_wf:
  assumes "wf_board board"
  shows "getDirectionalMoves_chk board src clr directions
           = Inr (getDirectionalMoves board src clr directions)"
  unfolding getDirectionalMoves_chk_def getDirectionalMoves_def
  by (rule forEachE_Inr) (auto simp: rayMoves_chk_wf [OF assms])

lemma pawn_forward_chk:
  assumes "wf_board board" and "(d = - 1 \<and> s = 6) \<or> (d = 1 \<and> s = 1)"
  shows "(if isValidPosition \<lparr>row = r + d, col = c\<rparr> then
            bindE (readSquare board \<lparr>row = r + d, col = c\<rparr>) (\<lambda>ahead.
              if ahead = None then
                (if r = s then
                   bindE (readSquare board \<lparr>row = r + 2 * d, col = c\<rparr>) (\<lambda>ahead2.
                     Inr (\<lparr>row = r + d, col = c\<rparr>
                          # (if ahead2 = None then [\<lparr>row = r + 2 * d, col = c\<rparr>] else [])))
                 else Inr [\<lparr>row = r + d, col = c\<rparr>])
              else Inr [])
          else Inr [])
         = Inr (if isValidPosition \<lparr>row = r + d, col = c\<rparr> \<and> cellAt board (r + d) c = None
                then \<lparr>row = r + d, col = c\<rparr> #
                  (if r = s
                   then (if cellAt board (r + 2 * d) c = None
                         then [\<lparr>row = r + 2 * d, col = c\<rparr>] else [])
                   else [])
                else [])"
proof (cases "isValidPosition \<lparr>row = r + d, col = c\<rparr>")
  case False
  then show ?thesis
    by simp
next
  case True
  have one: "readSquare board \<lparr>row = r + d, col = c\<rparr> = Inr (cellAt board (r + d) c)"
    using readSquare_valid [OF assms(1) True] by simp
  show ?thesis
  proof (cases "r = s")
    case False
    then show ?thesis
      using True one by (simp add: bindE_Inr)
  next
    case True
    with \<open>isValidPosition \<lparr>row = r + d, col = c\<rparr>\<close> assms(2)
    have "isValidPosition \<lparr>row = r + 2 * d, col = c\<rparr>"
      by (auto simp: isValidPosition_def)
    from readSquare_valid [OF assms(1) this]
    have two: "readSquare board \<lparr>row = r + 2 * d, col = c\<rparr> = Inr (cellAt board (r + 2 * d) c)"
      by simp
    show ?thesis
      using \<open>isValidPosition \<lparr>row = r + d, col = c\<rparr>\<close> True one two by (simp add: bindE_Inr)
  qed
qed

lemma getPawnMoves_chk_wf:
  assumes "wf_board board"
  shows "getPawnMoves_chk board src clr lastMove = Inr (getPawnMoves board src clr lastMove)"
proof -
  let ?d = "if clr = White then - 1 else (1::int)"
  let ?s = "if clr = White then 6 else (1::int)"
  let ?f = "\<lambda>capture target.
              (case target of
                 Some t \<Rightarrow> if color t \<noteq> clr then [capture] else []
               | None \<Rightarrow> [])
              @ (case lastMove of
                   Some lm \<Rightarrow>
                     if type (piece lm) = Pawn \<and> \<bar>row (from lm) - row (to lm)\<bar> = 2
                        \<and> row (to lm) = row src \<and> col (to lm) = col capture
                     then [capture] else []
                 | None \<Rightarrow> [])"
  have ds: "(?d = - 1 \<and> ?s = 6) \<or> (?d = 1 \<and> ?s = 1)"
    by simp
  note fwd = pawn_forward_chk [OF assms ds, of "row src" "col src"]
  show ?thesis
    unfolding getPawnMoves_chk_def getPawnMoves_def Let_def
    apply (simp only: fwd bindE_Inr)
    apply (simp add: bindE_Inr readSquare_valid [OF assms] cong: if_cong)
    done
qed

lemma getBishopMoves_chk_wf:
  "wf_board board \<Longrightarrow> getBishopMoves_chk board src clr = Inr (getBishopMoves board src clr)"
  by (simp add: getBishopMoves_chk_def getBishopMoves_def getDirectionalMoves_chk_wf)

lemma getRookMoves_chk_wf:
  "wf_board board \<Longrightarrow> getRookMoves_chk board src clr = Inr (getRookMoves board src clr)"
  by (simp add: getRookMoves_chk_def getRookMoves_def getDirectionalMoves_chk_wf)

lemma getQueenMoves_chk_wf:
  "wf_board board \<Longrightarrow> getQueenMoves_chk board src clr = Inr (getQueenMoves board src clr)"
  by (simp add: getQueenMoves_chk_def getQueenMoves_def getDirectionalMoves_chk_wf)

lemmas generators_chk_wf =
  getPawnMoves_chk_wf getKnightMoves_chk_wf getBishopMoves_chk_wf getRookMoves_chk_wf
  getQueenMoves_chk_wf getKingMoves_chk_wf

lemma getValidMovesWithoutCheckTest_chk_wf:
  assumes "wf_board board" and "0 \<le> row src" and "row src < 8"
  shows "getValidMovesWithoutCheckTest_chk board src
           = Inr (getValidMovesWithoutCheckTest board src)"
proof (cases "cellAt board (row src) (col src)")
  case None
  then show ?thesis
    by (simp add: getValidMovesWithoutCheckTest_chk_def getValidMovesWithoutCheckTest_def
          readSquare_rows [OF assms] bindE_Inr)
next
  case (Some p)
  then show ?thesis
    by (cases "type p")
      (simp_all add: getValidMovesWithoutCheckTest_chk_def getValidMovesWithoutCheckTest_def
         readSquare_rows [OF assms] bindE_Inr generators_chk_wf [OF assms(1)])
qed

lemma findKing_chk_wf:
  assumes "wf_board board"
  shows "findKing_chk board clr = Inr (findKing board clr)"
  unfolding findKing_chk_def findKing_def
proof (rule findE_Inr)
  fix pos
  assume "pos \<in> set allSquares"
  then have "readSquare board pos = Inr (cellAt board (row pos) (col pos))"
    using allSquares_range [of pos] assms by (intro readSquare_rows) simp_all
  then show "bindE (readSquare board pos) (\<lambda>found.
               Inr (case found of Some p \<Rightarrow> type p = King \<and> color p = clr | None \<Rightarrow> False))
             = Inr (case cellAt board (row pos) (col pos) of
                      Some p \<Rightarrow> type p = King \<and> color p = clr | None \<Rightarrow> False)"
    by (simp add: bindE_Inr)
qed

lemma isInCheck_chk_wf:
  assumes "wf_board board"
  shows "isInCheck_chk board clr = Inr (isInCheck board clr)"
proof (cases "findKing board clr")
  case None
  then show ?thesis
    by (simp add: isInCheck_chk_def isInCheck_def findKing_chk_wf [OF assms] bindE_Inr)
next
  case (Some kingPos)
  let ?opp = "if clr = White then Black else White"
  have "someE (\<lambda>pos.
          bindE (readSquare board pos) (\<lambda>found.
            case found of
              Some p \<Rightarrow>
                if color p = ?opp then
                  bindE (getValidMovesWithoutCheckTest_chk board pos) (\<lambda>moves.
                    Inr (list_ex (\<lambda>m. row m = row kingPos \<and> col m = col kingPos) moves))
                else Inr False
            | None \<Rightarrow> Inr False)) allSquares
        = Inr (list_ex (\<lambda>pos.
            case cellAt board (row pos) (col pos) of
              Some p \<Rightarrow> color p = ?opp \<and>
                list_ex (\<lambda>m. row m = row kingPos \<and> col m = col kingPos)
                  (getValidMovesWithoutCheckTest board pos)
            | None \<Rightarrow> False) allSquares)"
  proof (rule someE_Inr)
    fix pos
    assume "pos \<in> set allSquares"
    then have r: "0 \<le> row pos" "row pos < 8"
      using allSquares_range [of pos] by simp_all
    show "bindE (readSquare board pos) (\<lambda>found.
            case found of
              Some p \<Rightarrow>
                if color p = ?opp then
                  bindE (getValidMovesWithoutCheckTest_chk board pos) (\<lambda>moves.
                    Inr (list_ex (\<lambda>m. row m = row kingPos \<and> col m = col kingPos) moves))
                else Inr False
            | None \<Rightarrow> Inr False)
          = Inr (case cellAt board (row pos) (col pos) of
              Some p \<Rightarrow> color p = ?opp \<and>
                list_ex (\<lambda>m. row m = row kingPos \<and> col m = col kingPos)
                  (getValidMovesWithoutCheckTest board pos)
            | None \<Rightarrow> False)"
      by (simp add: readSquare_rows [OF assms r] bindE_Inr
            getValidMovesWithoutCheckTest_chk_wf [OF assms r] split: option.splits)
  qed
  then show ?thesis
    using Some
    by (simp add: isInCheck_chk_def isInCheck_def findKing_chk_wf [OF assms] bindE_Inr Let_def)
qed

lemma wouldBeInCheck_chk_wf:
  assumes "wf_board board" and "isValidPosition src" and "isValidPosition dst"
  shows "wouldBeInCheck_chk board src dst clr = Inr (wouldBeInCheck board src dst clr)"
proof -
  let ?moved = "cellAt board (row src) (col src)"
  let ?b1 = "setCell board (row dst) (col dst) ?moved"
  let ?b2 = "setCell ?b1 (row src) (col src) None"
  have wf1: "wf_board ?b1" and wf2: "wf_board ?b2"
    using assms(1) by (simp_all add: wf_board_setCell)
  have "readSquare board src = Inr ?moved"
    using assms(1,2) by (rule readSquare_valid)
  moreover have "writeSquare board dst ?moved = Inr ?b1"
    using assms(1,3) by (rule writeSquare_valid)
  moreover have "writeSquare ?b1 src None = Inr ?b2"
    using wf1 assms(2) by (rule writeSquare_valid)
  moreover have "isInCheck_chk ?b2 clr = Inr (isInCheck ?b2 clr)"
    using wf2 by (rule isInCheck_chk_wf)
  ultimately show ?thesis
    by (simp add: wouldBeInCheck_chk_def wouldBeInCheck_def Let_def copyBoard_id bindE_Inr)
qed

lemma pseudo_moves_valid:
  assumes "dst \<in> set (case type p of
             Pawn \<Rightarrow> getPawnMoves board src (color p) lastMove
           | Knight \<Rightarrow> getKnightMoves board src (color p)
           | Bishop \<Rightarrow> getBishopMoves board src (color p)
           | Rook \<Rightarrow> getRookMoves board src (color p)
           | Queen \<Rightarrow> getQueenMoves board src (color p)
           | King \<Rightarrow> getKingMoves board src (color p))"
  shows "isValidPosition dst"
  using assms
  by (cases "type p")
    (auto simp: getBishopMoves_def getRookMoves_def getQueenMoves_def
     dest: getPawnMoves_valid getKnightMoves_valid getKingMoves_valid getDirectionalMoves_valid)

lemma getValidMoves_wf:
  assumes "wf_board board" and "0 \<le> row src" and "row src < 8"
  shows "getValidMoves board src lastMove =
           (case cellAt board (row src) (col src) of
              None \<Rightarrow> Inr []
            | Some p \<Rightarrow> Inr (validMovesOfPiece board src p lastMove))"
proof (cases "cellAt board (row src) (col src)")
  case None
  then show ?thesis
    by (simp add: getValidMoves_def readSquare_rows [OF assms] bindE_Inr)
next
  case (Some p)
  let ?moves = "case type p of
             Pawn \<Rightarrow> getPawnMoves board src (color p) lastMove
           | Knight \<Rightarrow> getKnightMoves board src (color p)
           | Bishop \<Rightarrow> getBishopMoves board src (color p)
           | Rook \<Rightarrow> getRookMoves board src (color p)
           | Queen \<Rightarrow> getQueenMoves board src (color p)
           | King \<Rightarrow> getKingMoves board src (color p)"
  have src: "isValidPosition src"
    using Some assms by (auto simp: cellAt_wf isValidPosition_def split: if_splits)
  have gen: "(case type p of
                Pawn \<Rightarrow> getPawnMoves_chk board src (color p) lastMove
              | Knight \<Rightarrow> getKnightMoves_chk board src (color p)
              | Bishop \<Rightarrow> getBishopMoves_chk board src (color p)
              | Rook \<Rightarrow> getRookMoves_chk board src (color p)
              | Queen \<Rightarrow> getQueenMoves_chk board src (color p)
              | King \<Rightarrow> getKingMoves_chk board src (color p)) = Inr ?moves"
    by (cases "type p") (simp_all add: generators_chk_wf [OF assms(1)])
  have filt: "filterE (\<lambda>dst.
                bindE (wouldBeInCheck_chk board src dst (color p)) (\<lambda>inCheck. Inr (\<not> inCheck)))
                ?moves
              = Inr (filter (\<lambda>dst. \<not> wouldBeInCheck board src dst (color p)) ?moves)"
  proof (rule filterE_Inr)
    fix dst
    assume "dst \<in> set ?moves"
    then have "isValidPosition dst"
      by (rule pseudo_moves_valid)
    then show "bindE (wouldBeInCheck_chk board src dst (color p)) (\<lambda>inCheck. Inr (\<not> inCheck))
               = Inr (\<not> wouldBeInCheck board src dst (color p))"
      by (simp add: wouldBeInCheck_chk_wf [OF assms(1) src] bindE_Inr)
  qed
  show ?thesis
    using Some
    by (simp add: getValidMoves_def readSquare_rows [OF assms] bindE_Inr gen filt
          validMovesOfPiece_def Let_def)
qed

lemma getValidMoves_bad_row:
  assumes "wf_board board" and "\<not> (0 \<le> row src \<and> row src < 8)"
  shows "getValidMoves board src lastMove = Inl TypeError"
  using assms by (simp add: getValidMoves_def readSquare_bad_row bindE_Inl)

lemma getValidMoves_on_piece:
  assumes "wf_board board" and "0 \<le> row pos" and "row pos < 8"
    and "cellAt board (row pos) (col pos) = Some p"
  shows "getValidMoves board pos lastMove = Inr (validMovesOfPiece board pos p lastMove)"
  using assms by (simp add: getValidMoves_wf)

text \<open>The 8 rows are needed: on the initial board without its last row, the scan of
  \<open>findKing\<close> reaches the missing row 7 and the call raises, on an occupied in-range
  square.\<close>

lemma getValidMoves_short_board_raises:
  "getValidMoves (butlast INITIAL_BOARD) \<lparr>row = 1, col = 4\<rparr> None = Inl TypeError"
  by code_simp

section \<open>Generated positions are on the board\<close>

lemma getValidMoves_rows:
  assumes "wf_board board" and "getValidMoves board src lastMove = Inr moves"
  shows "0 \<le> row src \<and> row src < 8"
proof (rule ccontr)
  assume "\<not> (0 \<le> row src \<and> row src < 8)"
  with assms(1) have "getValidMoves board src lastMove = Inl TypeError"
    by (rule getValidMoves_bad_row)
  with assms(2) show False
    by simp
qed

lemma getValidMoves_valid:
  assumes "wf_board board" and "getValidMoves board src lastMove = Inr moves"
    and "p \<in> set moves"
  shows "isValidPosition p"
proof -
  from getValidMoves_rows [OF assms(1,2)] have r: "0 \<le> row src" "row src < 8"
    by simp_all
  show ?thesis
  proof (cases "cellAt board (row src) (col src)")
    case None
    with assms(2,3) show ?thesis
      by (simp add: getValidMoves_wf [OF assms(1) r])
  next
    case (Some q)
    with assms(2,3) have "p \<in> set (validMovesOfPiece board src q lastMove)"
      by (auto simp: getValidMoves_wf [OF assms(1) r])
    then show ?thesis
      by (rule validMovesOfPiece_valid)
  qed
qed

text \<open>Claim C8. On an 8 x 8 board, for every source position and every optional last move,
  every position produced by a per-piece generator (pawn, with its double advance, knight,
  bishop, rook, queen, king, and the directional generator for any list of directions) and
  every position returned by \<open>getValidMoves\<close> has its row and its column in 0..7.\<close>

theorem generated_positions_in_range:
  assumes "wf_board board"
  shows "(\<forall>p \<in> set (getPawnMoves board src clr lastMove).
            0 \<le> row p \<and> row p < 8 \<and> 0 \<le> col p \<and> col p < 8)
       \<and> (\<forall>p \<in> set (getKnightMoves board src clr).
            0 \<le> row p \<and> row p < 8 \<and> 0 \<le> col p \<and> col p < 8)
       \<and> (\<forall>p \<in> set (getBishopMoves board src clr).
            0 \<le> row p \<and> row p < 8 \<and> 0 \<le> col p \<and> col p < 8)
       \<and> (\<forall>p \<in> set (getRookMoves board src clr).
            0 \<le> row p \<and> row p < 8 \<and> 0 \<le> col p \<and> col p < 8)
       \<and> (\<forall>p \<in> set (getQueenMoves board src clr).
            0 \<le> row p \<and> row p < 8 \<and> 0 \<le> col p \<and> col p < 8)
       \<and> (\<forall>p \<in> set (getKingMoves board src clr).
            0 \<le> row p \<and> row p < 8 \<and> 0 \<le> col p \<and> col p < 8)
       \<and> (\<forall>p \<in> set (getDirectionalMoves board src clr directions).
            0 \<le> row p \<and> row p < 8 \<and> 0 \<le> col p \<and> col p < 8)
       \<and> (\<forall>moves. getValidMoves board src lastMove = Inr moves \<longrightarrow>
            (\<forall>p \<in> set moves. 0 \<le> row p \<and> row p < 8 \<and> 0 \<le> col p \<and> col p < 8))"
proof -
  have v: "isValidPosition p \<Longrightarrow> 0 \<le> row p \<and> row p < 8 \<and> 0 \<le> col p \<and> col p < 8" for p
    by (simp add: isValidPosition_def)
  have g1: "\<forall>p \<in> set (getPawnMoves board src clr lastMove). 0 \<le> row p \<and> row p < 8 \<and> 0 \<le> col p \<and> col p < 8"
    using v getPawnMoves_valid by blast
  have g2: "\<forall>p \<in> set (getKnightMoves board src clr). 0 \<le> row p \<and> row p < 8 \<and> 0 \<le> col p \<and> col p < 8"
    using v getKnightMoves_valid by blast
  have g3: "\<forall>p \<in> set (getBishopMoves board src clr). 0 \<le> row p \<and> row p < 8 \<and> 0 \<le> col p \<and> col p < 8"
    using v getBishopMoves_valid by blast
  have g4: "\<forall>p \<in> set (getRookMoves board src clr). 0 \<le> row p \<and> row p < 8 \<and> 0 \<le> col p \<and> col p < 8"
    using v getRookMoves_valid by blast
  have g5: "\<forall>p \<in> set (getQueenMoves board src clr). 0 \<le> row p \<and> row p < 8 \<and> 0 \<le> col p \<and> col p < 8"
    using v getQueenMoves_valid by blast
  have g6: "\<forall>p \<in> set (getKingMoves board src clr). 0 \<le> row p \<and> row p < 8 \<and> 0 \<le> col p \<and> col p < 8"
    using v getKingMoves_valid by blast
  have g7: "\<forall>p \<in> set (getDirectionalMoves board src clr directions). 0 \<le> row p \<and> row p < 8 \<and> 0 \<le> col p \<and> col p < 8"
    using v getDirectionalMoves_valid by blast
  have g8: "\<forall>moves. getValidMoves board src lastMove = Inr moves \<longrightarrow>
            (\<forall>p \<in> set moves. 0 \<le> row p \<and> row p < 8 \<and> 0 \<le> col p \<and> col p < 8)"
    using v getValidMoves_valid [OF assms] by blast
  show ?thesis
    by (rule g1 g2 g3 g4 g5 g6 g7 g8 conjI)+
qed

theorem generated_positions_in_range_witness:
  "wf_board INITIAL_BOARD
   \<and> getPawnMoves INITIAL_BOARD \<lparr>row = 6, col = 4\<rparr> White None
       = [\<lparr>row = 5, col = 4\<rparr>, \<lparr>row = 4, col = 4\<rparr>]
   \<and> getKnightMoves INITIAL_BOARD \<lparr>row = 7, col = 1\<rparr> White
       = [\<lparr>row = 5, col = 0\<rparr>, \<lparr>row = 5, col = 2\<rparr>]
   \<and> isValidPosition \<lparr>row = 5, col = 4\<rparr> \<and> isValidPosition \<lparr>row = 4, col = 4\<rparr>
   \<and> isValidPosition \<lparr>row = 5, col = 0\<rparr> \<and> isValidPosition \<lparr>row = 5, col = 2\<rparr>"
proof -
  have pawn: "getPawnMoves INITIAL_BOARD \<lparr>row = 6, col = 4\<rparr> White None
                = [\<lparr>row = 5, col = 4\<rparr>, \<lparr>row = 4, col = 4\<rparr>]"
    by code_simp
  have knight: "getKnightMoves INITIAL_BOARD \<lparr>row = 7, col = 1\<rparr> White
                = [\<lparr>row = 5, col = 0\<rparr>, \<lparr>row = 5, col = 2\<rparr>]"
    by code_simp
  have wf: "wf_board INITIAL_BOARD"
    by (simp add: wf_board_def INITIAL_BOARD_def)
  show ?thesis
    using generated_positions_in_range [OF wf, of "\<lparr>row = 6, col = 4\<rparr>" White None]
      generated_positions_in_range [OF wf, of "\<lparr>row = 7, col = 1\<rparr>" White None]
      wf pawn knight
    by (simp add: isValidPosition_def)
qed


section \<open>Terminal nodes, determinism, evaluation, legal moves\<close>

text \<open>Claim C6. On an 8 x 8 board and at a depth greater than 0, whatever \<open>alpha\<close>, \<open>beta\<close> and
  the root colour are: when the side to move at the node is checkmated, \<open>minimax\<close> returns
  -999999 if \<open>maximizing\<close> and 999999 if not; when it is not checkmated and has no legal move,
  \<open>minimax\<close> returns 0.\<close>

theorem minimax_terminal:
  assumes "wf_board board" and "0 < depth"
    and "currentColor = (if maximizing then clr else (if clr = White then Black else White))"
  shows "(isCheckmate board currentColor \<longrightarrow>
            minimax board depth alpha beta maximizing clr =
              (if maximizing then Num (- 999999) else Num 999999))
       \<and> (\<not> isCheckmate board currentColor \<and> getAllPossibleMoves board currentColor = [] \<longrightarrow>
            minimax board depth alpha beta maximizing clr = Num 0)"
proof -
  from assms(2) obtain d where d: "depth = Suc d"
    by (cases depth) simp_all
  show ?thesis
    unfolding d assms(3) by (simp add: Let_def)
qed

theorem minimax_terminal_witness:
  "wf_board mateBoard \<and> isCheckmate mateBoard Black
   \<and> minimax mateBoard 1 NegInfinity Infinity False White = Num 999999
   \<and> minimax mateBoard 1 NegInfinity Infinity True Black = Num (- 999999)
   \<and> wf_board staleBoard \<and> \<not> isCheckmate staleBoard Black
   \<and> getAllPossibleMoves staleBoard Black = []
   \<and> minimax staleBoard 1 NegInfinity Infinity False White = Num 0"
proof -
  have mate: "isCheckmate mateBoard Black"
    by code_simp
  have stale: "\<not> isCheckmate staleBoard Black" "getAllPossibleMoves staleBoard Black = []"
    by code_simp+
  have c1: "Black = (if False then White else (if White = White then Black else White))"
    by simp
  have c2: "Black = (if True then Black else (if Black = White then Black else White))"
    by simp
  have pos: "0 < (1::nat)"
    by simp
  show ?thesis
    using minimax_terminal [OF wf_mateBoard pos c1, of NegInfinity Infinity]
      minimax_terminal [OF wf_mateBoard pos c2, of NegInfinity Infinity]
      minimax_terminal [OF wf_staleBoard pos c1, of NegInfinity Infinity]
      mate stale wf_mateBoard wf_staleBoard
    by simp
qed

text \<open>Claim C7. At \<open>medium\<close> and \<open>hard\<close> the result of \<open>getBestMove\<close> does not depend on
  the values that \<open>Math.random()\<close> returns: two calls on the same board and colour return the
  same move.\<close>

theorem getBestMove_deterministic:
  assumes "wf_board board" and "d \<noteq> Easy"
  shows "getBestMove board clr d rnd = getBestMove board clr d rnd'"
  using assms(2) by (simp add: getBestMove_def Let_def)

theorem getBestMove_deterministic_witness:
  "wf_board INITIAL_BOARD \<and> Medium \<noteq> Easy \<and> Hard \<noteq> Easy
   \<and> getBestMove INITIAL_BOARD Black Medium (\<lambda>k. 0) = getBestMove INITIAL_BOARD Black Medium (\<lambda>k. 9 / 10)
   \<and> getBestMove INITIAL_BOARD Black Hard (\<lambda>k. 0) = getBestMove INITIAL_BOARD Black Hard (\<lambda>k. 9 / 10)"
proof -
  have m: "Medium \<noteq> Easy" and h: "Hard \<noteq> Easy"
    by simp_all
  show ?thesis
    using getBestMove_deterministic [OF wf_INITIAL_BOARD m, of Black "\<lambda>k. 0" "\<lambda>k. 9 / 10"]
      getBestMove_deterministic [OF wf_INITIAL_BOARD h, of Black "\<lambda>k. 0" "\<lambda>k. 9 / 10"]
      wf_INITIAL_BOARD
    by simp
qed

text \<open>Claim C3, at the input where the code departs from it. A black pawn on its starting
  rank (row 1) has advanced by no row, yet its positional bonus is 10; a white pawn on its
  starting rank (row 6) has the bonus 0. The black branch counts rows from row 0 and the
  white branch from row 6, so the initial position, which is symmetric, is worth -80 to
  White.\<close>

theorem getPositionBonus_black_pawn:
  "getPositionBonus \<lparr>type = Pawn, color = Black\<rparr> 1 4 = 10
   \<and> getPositionBonus \<lparr>type = Pawn, color = White\<rparr> 6 4 = 0
   \<and> getPositionBonus \<lparr>type = Pawn, color = Black\<rparr> r c = 10 * of_int (r - 1) + 10
   \<and> getPositionBonus \<lparr>type = Pawn, color = White\<rparr> r c = 10 * of_int (6 - r)
   \<and> evaluateBoard INITIAL_BOARD White = - 80"
proof -
  have "evaluateBoard INITIAL_BOARD White = - 80"
    by code_simp
  then show ?thesis
    by (simp add: getPositionBonus_def)
qed

lemma wouldBeInCheck_makeMove:
  "wouldBeInCheck board src dst clr = isInCheck (makeMove board src dst) clr"
  by (simp add: wouldBeInCheck_def makeMove_def Let_def)

text \<open>Claim C1. On an 8 x 8 board, every destination that \<open>getValidMoves\<close> returns for a
  square belongs to a piece standing there, and the board obtained by moving that piece from
  the square to the destination is one on which the mover's colour is not in check.\<close>

theorem getValidMoves_no_self_check:
  assumes "wf_board board" and "getValidMoves board src lastMove = Inr moves"
    and "dst \<in> set moves"
  shows "\<exists>p. cellAt board (row src) (col src) = Some p
           \<and> \<not> isInCheck (makeMove board src dst) (color p)"
proof -
  from getValidMoves_rows [OF assms(1,2)] have r: "0 \<le> row src" "row src < 8"
    by simp_all
  show ?thesis
  proof (cases "cellAt board (row src) (col src)")
    case None
    with assms(2,3) show ?thesis
      by (simp add: getValidMoves_wf [OF assms(1) r])
  next
    case (Some p)
    with assms(2) have "moves = validMovesOfPiece board src p lastMove"
      by (simp add: getValidMoves_wf [OF assms(1) r])
    with assms(3) have "\<not> wouldBeInCheck board src dst (color p)"
      by (simp add: validMovesOfPiece_def Let_def)
    with Some show ?thesis
      by (simp add: wouldBeInCheck_makeMove)
  qed
qed

theorem getValidMoves_no_self_check_witness:
  "wf_board INITIAL_BOARD
   \<and> getValidMoves INITIAL_BOARD \<lparr>row = 6, col = 4\<rparr> None
       = Inr [\<lparr>row = 5, col = 4\<rparr>, \<lparr>row = 4, col = 4\<rparr>]
   \<and> cellAt INITIAL_BOARD 6 4 = whitePiece Pawn
   \<and> \<not> isInCheck (makeMove INITIAL_BOARD \<lparr>row = 6, col = 4\<rparr> \<lparr>row = 4, col = 4\<rparr>) White"
proof -
  have moves: "getValidMoves INITIAL_BOARD \<lparr>row = 6, col = 4\<rparr> None
                 = Inr [\<lparr>row = 5, col = 4\<rparr>, \<lparr>row = 4, col = 4\<rparr>]"
    by code_simp
  have mem: "\<lparr>row = 4, col = 4\<rparr> \<in> set [\<lparr>row = 5, col = 4\<rparr>, \<lparr>row = 4, col = 4::int\<rparr>]"
    by simp
  have p: "cellAt INITIAL_BOARD 6 4 = whitePiece Pawn"
    by (simp add: cellAt_def INITIAL_BOARD_def eval_nat_numeral)
  show ?thesis
    using getValidMoves_no_self_check [OF wf_INITIAL_BOARD moves mem] wf_INITIAL_BOARD moves p
    by (simp add: whitePiece_def)
qed

text \<open>Claim C4 as stated fails: for a position whose row is outside 0..7, here row 8 on the
  initial board, \<open>getValidMoves\<close> does not return the empty sequence, it raises.\<close>

theorem getValidMoves_bad_row_raises:
  "getValidMoves INITIAL_BOARD \<lparr>row = 8, col = 0\<rparr> None = Inl TypeError"
  by (simp add: getValidMoves_def readSquare_def bindE_def INITIAL_BOARD_def)

text \<open>Claim C4, amended. On an 8 x 8 board and for a position whose row is in 0..7,
  \<open>getValidMoves\<close> returns a sequence: none of the reads and writes it executes raises. It
  returns the empty sequence when the column is outside 0..7 or the square holds no piece.
  For a position whose row is outside 0..7 it raises a TypeError.\<close>

theorem getValidMoves_total_on_rows:
  assumes "wf_board board"
  shows "(0 \<le> row src \<and> row src < 8 \<longrightarrow>
            (\<exists>moves. getValidMoves board src lastMove = Inr moves)
            \<and> (\<not> isValidPosition src \<or> cellAt board (row src) (col src) = None \<longrightarrow>
                 getValidMoves board src lastMove = Inr []))
       \<and> (\<not> (0 \<le> row src \<and> row src < 8) \<longrightarrow>
            getValidMoves board src lastMove = Inl TypeError)"
proof -
  have ok: "\<exists>moves. getValidMoves board src lastMove = Inr moves"
    if "0 \<le> row src" and "row src < 8"
    by (cases "cellAt board (row src) (col src)")
      (simp_all add: getValidMoves_wf [OF assms that])
  have off: "cellAt board (row src) (col src) = None" if "\<not> isValidPosition src"
    using that by (auto simp: cellAt_wf [OF assms] isValidPosition_def)
  have empty: "getValidMoves board src lastMove = Inr []"
    if "0 \<le> row src" and "row src < 8"
      and "\<not> isValidPosition src \<or> cellAt board (row src) (col src) = None"
    using that(3) off by (auto simp: getValidMoves_wf [OF assms that(1,2)])
  have bad: "getValidMoves board src lastMove = Inl TypeError"
    if "\<not> (0 \<le> row src \<and> row src < 8)"
    using assms that by (rule getValidMoves_bad_row)
  from ok empty bad show ?thesis
    by blast
qed

theorem getValidMoves_total_on_rows_witness:
  "wf_board INITIAL_BOARD
   \<and> getValidMoves INITIAL_BOARD \<lparr>row = 6, col = 4\<rparr> None
       = Inr [\<lparr>row = 5, col = 4\<rparr>, \<lparr>row = 4, col = 4\<rparr>]
   \<and> \<not> isValidPosition \<lparr>row = 3, col = 9\<rparr>
   \<and> getValidMoves INITIAL_BOARD \<lparr>row = 3, col = 9\<rparr> None = Inr []
   \<and> cellAt INITIAL_BOARD 3 3 = None
   \<and> getValidMoves INITIAL_BOARD \<lparr>row = 3, col = 3\<rparr> None = Inr []
   \<and> getValidMoves INITIAL_BOARD \<lparr>row = - 1, col = 3\<rparr> None = Inl TypeError"
proof -
  have e: "cellAt INITIAL_BOARD 3 3 = None"
    by (simp add: cellAt_def INITIAL_BOARD_def eval_nat_numeral)
  have occupied: "getValidMoves INITIAL_BOARD \<lparr>row = 6, col = 4\<rparr> None
                    = Inr [\<lparr>row = 5, col = 4\<rparr>, \<lparr>row = 4, col = 4\<rparr>]"
    by code_simp
  show ?thesis
    using getValidMoves_total_on_rows [OF wf_INITIAL_BOARD, of "\<lparr>row = 6, col = 4\<rparr>" None]
      getValidMoves_total_on_rows [OF wf_INITIAL_BOARD, of "\<lparr>row = 3, col = 9\<rparr>" None]
      getValidMoves_total_on_rows [OF wf_INITIAL_BOARD, of "\<lparr>row = 3, col = 3\<rparr>" None]
      getValidMoves_total_on_rows [OF wf_INITIAL_BOARD, of "\<lparr>row = - 1, col = 3\<rparr>" None]
      wf_INITIAL_BOARD e occupied
    by (simp add: isValidPosition_def)
qed

section \<open>Pruning does not change the chosen move\<close>

lemma windowed_iff: "a < b \<Longrightarrow> windowed a b v ab \<longleftrightarrow> min v b \<le> ab \<and> ab \<le> max v a"
  unfolding windowed_def by (auto simp: min_le_iff_disj le_max_iff_disj)

lemma windowed_refl: "windowed a b v v"
  by (simp add: windowed_def)

lemma NegInfinity_least: "NegInfinity \<le> x"
  by simp

lemma Infinity_greatest: "x \<le> Infinity"
  by (cases x) simp_all

lemma max_NegInfinity: "max x NegInfinity = x" "max NegInfinity x = x"
  by (simp_all add: max.absorb1 max.absorb2 NegInfinity_least)

lemma min_Infinity: "min x Infinity = x" "min Infinity x = x"
  by (simp_all add: min.absorb1 min.absorb2 Infinity_greatest)

lemma windowed_full_window:
  assumes "windowed NegInfinity Infinity v ab"
  shows "ab = v"
proof -
  have "NegInfinity < Infinity"
    by (simp add: less_number_def)
  then have "min v Infinity \<le> ab" and "ab \<le> max v NegInfinity"
    using assms by (simp_all add: windowed_iff)
  then show ?thesis
    by (simp add: min_Infinity max_NegInfinity)
qed

lemma windowed_max_break:
  assumes "e \<le> a" and "a < b" and "windowed a b fv ev" and "b \<le> max a ev"
  shows "windowed a b (max (max e fv) R) (max e ev)"
proof -
  have "b \<le> ev"
    using assms(2,4) by (auto simp: le_max_iff_disj)
  moreover from this have "ev \<le> fv"
    using assms(3) by (simp add: windowed_def)
  ultimately show ?thesis
    using assms(1,2) by (auto simp: windowed_iff min_le_iff_disj le_max_iff_disj)
qed

lemma windowed_max_step:
  assumes "e \<le> a" and "a < b" and "windowed a b fv ev" and "\<not> b \<le> max a ev"
    and "windowed (max a ev) b (max (max e ev) R) v" and "max e ev \<le> v"
  shows "windowed a b (max (max e fv) R) v"
proof -
  have evb: "ev < b" and ab': "max a ev < b"
    using assms(4) by (auto simp: le_max_iff_disj)
  have 1: "min (max (max e ev) R) b \<le> v" and 2: "v \<le> max (max (max e ev) R) (max a ev)"
    using assms(5) by (simp_all add: windowed_iff [OF ab'])
  have 3: "min fv b \<le> ev" and 4: "ev \<le> max fv a"
    using assms(3) by (simp_all add: windowed_iff [OF assms(2)])
  have 5: "fv \<le> ev"
    using 3 evb by (auto simp: min_le_iff_disj)
  have "min (max (max e fv) R) b \<le> v"
    using 1 5 assms(6) by (auto simp: min_le_iff_disj le_max_iff_disj)
  moreover have "v \<le> max (max (max e fv) R) a"
    using 2 4 assms(1) by (auto simp: le_max_iff_disj)
  ultimately show ?thesis
    by (simp add: windowed_iff [OF assms(2)])
qed

lemma windowed_min_break:
  assumes "b \<le> e" and "a < b" and "windowed a b fv ev" and "min b ev \<le> a"
  shows "windowed a b (min (min e fv) R) (min e ev)"
proof -
  have "ev \<le> a"
    using assms(2,4) by (auto simp: min_le_iff_disj)
  moreover from this have "fv \<le> ev"
    using assms(3) by (simp add: windowed_def)
  ultimately show ?thesis
    using assms(1,2) by (auto simp: windowed_iff min_le_iff_disj le_max_iff_disj)
qed

lemma windowed_min_step:
  assumes "b \<le> e" and "a < b" and "windowed a b fv ev" and "\<not> min b ev \<le> a"
    and "windowed a (min b ev) (min (min e ev) R) v" and "v \<le> min e ev"
  shows "windowed a b (min (min e fv) R) v"
proof -
  have aev: "a < ev" and ab': "a < min b ev"
    using assms(4) by (auto simp: min_le_iff_disj)
  have 1: "min (min (min e ev) R) (min b ev) \<le> v" and 2: "v \<le> max (min (min e ev) R) a"
    using assms(5) by (simp_all add: windowed_iff [OF ab'])
  have 3: "min fv b \<le> ev" and 4: "ev \<le> max fv a"
    using assms(3) by (simp_all add: windowed_iff [OF assms(2)])
  have 5: "ev \<le> fv"
    using 4 aev by (auto simp: le_max_iff_disj)
  have "min (min (min e fv) R) b \<le> v"
    using 1 3 assms(6) by (auto simp: min_le_iff_disj le_max_iff_disj)
  moreover have "v \<le> max (min (min e fv) R) a"
    using 2 5 by (auto simp: le_max_iff_disj)
  ultimately show ?thesis
    by (simp add: windowed_iff [OF assms(2)])
qed

lemma fold_max_acc: "fold max xs (e::number) = max e (fold max xs NegInfinity)"
proof (induction xs arbitrary: e)
  case Nil
  show ?case by (simp add: max_NegInfinity)
next
  case (Cons x xs)
  have "fold max (x # xs) e = max (max x e) (fold max xs NegInfinity)"
    by (simp add: Cons.IH [of "max x e"])
  also have "\<dots> = max e (max x (fold max xs NegInfinity))"
    by (simp add: max.assoc max.commute max.left_commute)
  also have "max x (fold max xs NegInfinity) = fold max (x # xs) NegInfinity"
    using Cons.IH [of x] by (simp add: max_NegInfinity)
  finally show ?case .
qed

lemma fold_min_acc: "fold min xs (e::number) = min e (fold min xs Infinity)"
proof (induction xs arbitrary: e)
  case Nil
  show ?case by (simp add: min_Infinity)
next
  case (Cons x xs)
  have "fold min (x # xs) e = min (min x e) (fold min xs Infinity)"
    by (simp add: Cons.IH [of "min x e"])
  also have "\<dots> = min e (min x (fold min xs Infinity))"
    by (simp add: min.assoc min.commute min.left_commute)
  also have "min x (fold min xs Infinity) = fold min (x # xs) Infinity"
    using Cons.IH [of x] by (simp add: min_Infinity)
  finally show ?case .
qed

lemma maxLoop_ge: "maxEval \<le> maxLoop board depth clr moves maxEval alpha beta"
proof (induction moves arbitrary: maxEval alpha)
  case Nil
  show ?case by simp
next
  case (Cons m moves)
  let ?ev = "minimax (makeMove board (fst m) (snd m)) depth alpha beta False clr"
  have "max maxEval ?ev \<le> maxLoop board depth clr moves (max maxEval ?ev) (max alpha ?ev) beta"
    by (rule Cons.IH)
  then show ?case
    by (simp add: Let_def)
qed

lemma minLoop_le: "minLoop board depth clr moves minEval alpha beta \<le> minEval"
proof (induction moves arbitrary: minEval beta)
  case Nil
  show ?case by simp
next
  case (Cons m moves)
  let ?ev = "minimax (makeMove board (fst m) (snd m)) depth alpha beta True clr"
  have "minLoop board depth clr moves (min minEval ?ev) alpha (min beta ?ev) \<le> min minEval ?ev"
    by (rule Cons.IH)
  then show ?case
    by (simp add: Let_def)
qed


lemma windowed_minimax:
  shows "alpha < beta \<Longrightarrow>
           windowed alpha beta (minimaxFull board depth maximizing clr)
             (minimax board depth alpha beta maximizing clr)"
    and "maxEval \<le> alpha \<Longrightarrow> alpha < beta \<Longrightarrow>
           windowed alpha beta
             (fold max (map (\<lambda>m. minimaxFull (makeMove board (fst m) (snd m)) depth False clr) moves)
                maxEval)
             (maxLoop board depth clr moves maxEval alpha beta)"
    and "beta \<le> minEval \<Longrightarrow> alpha < beta \<Longrightarrow>
           windowed alpha beta
             (fold min (map (\<lambda>m. minimaxFull (makeMove board (fst m) (snd m)) depth True clr) moves)
                minEval)
             (minLoop board depth clr moves minEval alpha beta)"
proof (induction board depth alpha beta maximizing clr
         and board depth clr moves maxEval alpha beta
         and board depth clr moves minEval alpha beta
       rule: minimax_maxLoop_minLoop.induct)
  case (1 board alpha beta maximizing clr)
  show ?case
    by (simp add: windowed_refl)
next
  case (2 board depth alpha beta maximizing clr)
  let ?cur = "if maximizing then clr else (if clr = White then Black else White)"
  let ?moves = "getAllPossibleMoves board ?cur"
  show ?case
  proof (cases "isCheckmate board ?cur \<or> length ?moves = 0")
    case True
    then show ?thesis
      by (auto simp: Let_def windowed_refl)
  next
    case False
    then have nm: "\<not> isCheckmate board ?cur" and ne: "length ?moves \<noteq> 0"
      by simp_all
    show ?thesis
    proof (cases maximizing)
      case True
      have "windowed alpha beta
              (fold max (map (\<lambda>m. minimaxFull (makeMove board (fst m) (snd m)) depth False clr) ?moves)
                 NegInfinity)
              (maxLoop board depth clr ?moves NegInfinity alpha beta)"
        using "2.IH"(1) [OF refl nm refl ne True] "2.prems" by (simp add: NegInfinity_least)
      then show ?thesis
        using True nm ne by (simp add: Let_def)
    next
      case False
      have "windowed alpha beta
              (fold min (map (\<lambda>m. minimaxFull (makeMove board (fst m) (snd m)) depth True clr) ?moves)
                 Infinity)
              (minLoop board depth clr ?moves Infinity alpha beta)"
        using "2.IH"(2) [OF refl nm refl ne False] "2.prems" by (simp add: Infinity_greatest)
      then show ?thesis
        using False nm ne by (simp add: Let_def)
    qed
  qed
next
  case (3 board depth clr maxEval alpha beta)
  show ?case
    by (simp add: windowed_refl)
next
  case (4 board depth clr m moves maxEval alpha beta)
  let ?nb = "makeMove board (fst m) (snd m)"
  let ?ev = "minimax ?nb depth alpha beta False clr"
  let ?fv = "minimaxFull ?nb depth False clr"
  let ?f = "\<lambda>m. minimaxFull (makeMove board (fst m) (snd m)) depth False clr"
  let ?R = "fold max (map ?f moves) NegInfinity"
  have child: "windowed alpha beta ?fv ?ev"
    using "4.IH"(1) [OF refl] "4.prems"(2) .
  have full: "fold max (map ?f (m # moves)) maxEval = max (max maxEval ?fv) ?R"
    using fold_max_acc [of "map ?f moves" "max ?fv maxEval"] by (simp add: max.commute)
  show ?case
  proof (cases "beta \<le> max alpha ?ev")
    case True
    have "windowed alpha beta (max (max maxEval ?fv) ?R) (max maxEval ?ev)"
      using "4.prems" child True by (rule windowed_max_break)
    then show ?thesis
      using True by (simp only: full) (simp add: Let_def)
  next
    case False
    let ?v = "maxLoop board depth clr moves (max maxEval ?ev) (max alpha ?ev) beta"
    have le: "max maxEval ?ev \<le> max alpha ?ev"
      using "4.prems"(1) by (auto simp: le_max_iff_disj)
    have lt: "max alpha ?ev < beta"
      using False by (simp only: not_le)
    have "windowed (max alpha ?ev) beta (fold max (map ?f moves) (max maxEval ?ev)) ?v"
      using "4.IH"(2) [OF refl refl refl refl False le lt] .
    then have loop: "windowed (max alpha ?ev) beta (max (max maxEval ?ev) ?R) ?v"
      using fold_max_acc [of "map ?f moves" "max maxEval ?ev"] by simp
    have ge: "max maxEval ?ev \<le> ?v"
      by (rule maxLoop_ge)
    have "windowed alpha beta (max (max maxEval ?fv) ?R) ?v"
      using "4.prems" child False loop ge by (rule windowed_max_step)
    then show ?thesis
      using False by (simp only: full) (simp add: Let_def)
  qed
next
  case (5 board depth clr minEval alpha beta)
  show ?case
    by (simp add: windowed_refl)
next
  case (6 board depth clr m moves minEval alpha beta)
  let ?nb = "makeMove board (fst m) (snd m)"
  let ?ev = "minimax ?nb depth alpha beta True clr"
  let ?fv = "minimaxFull ?nb depth True clr"
  let ?f = "\<lambda>m. minimaxFull (makeMove board (fst m) (snd m)) depth True clr"
  let ?R = "fold min (map ?f moves) Infinity"
  have child: "windowed alpha beta ?fv ?ev"
    using "6.IH"(1) [OF refl] "6.prems"(2) .
  have full: "fold min (map ?f (m # moves)) minEval = min (min minEval ?fv) ?R"
    using fold_min_acc [of "map ?f moves" "min ?fv minEval"] by (simp add: min.commute)
  show ?case
  proof (cases "min beta ?ev \<le> alpha")
    case True
    have "windowed alpha beta (min (min minEval ?fv) ?R) (min minEval ?ev)"
      using "6.prems" child True by (rule windowed_min_break)
    then show ?thesis
      using True by (simp only: full) (simp add: Let_def)
  next
    case False
    let ?v = "minLoop board depth clr moves (min minEval ?ev) alpha (min beta ?ev)"
    have le: "min beta ?ev \<le> min minEval ?ev"
      using "6.prems"(1) by (auto simp: min_le_iff_disj)
    have lt: "alpha < min beta ?ev"
      using False by (simp only: not_le)
    have "windowed alpha (min beta ?ev) (fold min (map ?f moves) (min minEval ?ev)) ?v"
      using "6.IH"(2) [OF refl refl refl refl False le lt] .
    then have loop: "windowed alpha (min beta ?ev) (min (min minEval ?ev) ?R) ?v"
      using fold_min_acc [of "map ?f moves" "min minEval ?ev"] by simp
    have ge: "?v \<le> min minEval ?ev"
      by (rule minLoop_le)
    have "windowed alpha beta (min (min minEval ?fv) ?R) ?v"
      using "6.prems" child False loop ge by (rule windowed_min_step)
    then show ?thesis
      using False by (simp only: full) (simp add: Let_def)
  qed
qed

lemma minimax_full_window:
  "minimax board depth NegInfinity Infinity maximizing clr = minimaxFull board depth maximizing clr"
proof -
  have "NegInfinity < Infinity"
    by (simp add: less_number_def)
  then show ?thesis
    by (intro windowed_full_window windowed_minimax(1))
qed


lemma greatest_exists:
  fixes score :: "'a \<Rightarrow> number"
  assumes "xs \<noteq> []"
  shows "\<exists>x \<in> set xs. \<forall>y \<in> set xs. score y \<le> score x"
proof -
  have fin: "finite (score ` set xs)" and ne: "score ` set xs \<noteq> {}"
    using assms by simp_all
  from Max_in [OF fin ne] obtain x where x: "x \<in> set xs" "score x = Max (score ` set xs)"
    by auto
  have "score y \<le> score x" if "y \<in> set xs" for y
    using Max_ge [OF fin, of "score y"] that x(2) by simp
  with x(1) show ?thesis
    by blast
qed

lemma bestLoop_find:
  fixes board clr d
  defines "score \<equiv> \<lambda>m. minimax (makeMove board (fst m) (snd m)) d NegInfinity Infinity False clr"
  shows "bestLoop board clr d moves bestMove bestValue =
           (case find (\<lambda>m. bestValue < score m \<and> (\<forall>m' \<in> set moves. score m' \<le> score m)) moves of
              Some m \<Rightarrow> m
            | None \<Rightarrow> bestMove)"
proof (induction moves arbitrary: bestMove bestValue)
  case Nil
  show ?case by simp
next
  case (Cons m moves)
  let ?P = "\<lambda>x. bestValue < score x \<and> (\<forall>m' \<in> set (m # moves). score m' \<le> score x)"
  show ?case
  proof (cases "bestValue < score m")
    case False
    have "find ?P (m # moves) =
            find (\<lambda>x. bestValue < score x \<and> (\<forall>m' \<in> set moves. score m' \<le> score x)) moves"
      using False by (auto intro!: find_cong)
    moreover have "bestLoop board clr d (m # moves) bestMove bestValue =
                     bestLoop board clr d moves bestMove bestValue"
      using False by (simp add: score_def Let_def)
    ultimately show ?thesis
      by (simp only: Cons.IH)
  next
    case True
    have step: "bestLoop board clr d (m # moves) bestMove bestValue =
                  bestLoop board clr d moves m (score m)"
      using True by (simp add: score_def Let_def)
    let ?Q = "\<lambda>x. score m < score x \<and> (\<forall>m' \<in> set moves. score m' \<le> score x)"
    show ?thesis
    proof (cases "\<forall>m' \<in> set moves. score m' \<le> score m")
      case True
      then have "find ?Q moves = None"
        by (auto simp: find_None_iff)
      moreover have "find ?P (m # moves) = Some m"
        using True \<open>bestValue < score m\<close> by simp
      ultimately show ?thesis
        by (simp only: step Cons.IH) simp
    next
      case False
      then obtain m' where m': "m' \<in> set moves" "score m < score m'"
        by (auto simp: not_le)
      then have "moves \<noteq> []"
        by auto
      from greatest_exists [OF this, of score]
      obtain x where x: "x \<in> set moves" "\<forall>y \<in> set moves. score y \<le> score x"
        by blast
      then have "score m < score x"
        using m' by (meson less_le_trans)
      with x have "\<exists>x. x \<in> set moves \<and> ?Q x"
        by blast
      then obtain r where r: "find ?Q moves = Some r"
        by (cases "find ?Q moves") (auto simp: find_None_iff)
      have "?P m = False"
        using m' by (auto simp: not_le)
      then have "find ?P (m # moves) = find ?P moves"
        by (simp only: find.simps if_False)
      also have "\<dots> = find ?Q moves"
      proof (rule find_cong [OF refl])
        fix x
        assume "x \<in> set moves"
        show "?P x = ?Q x"
          using m' \<open>bestValue < score m\<close> by (auto intro: less_trans less_le_trans)
      qed
      finally show ?thesis
        using r by (simp only: step Cons.IH) simp
    qed
  qed
qed

lemma bestLoop_first_greatest:
  fixes board clr d
  defines "score \<equiv> \<lambda>m. minimax (makeMove board (fst m) (snd m)) d NegInfinity Infinity False clr"
  assumes "moves \<noteq> []"
  shows "Some (bestLoop board clr d moves (hd moves) NegInfinity) =
           find (\<lambda>m. \<forall>m' \<in> set moves. score m' \<le> score m) moves"
proof -
  let ?G = "\<lambda>m. \<forall>m' \<in> set moves. score m' \<le> score m"
  have loop: "bestLoop board clr d moves (hd moves) NegInfinity =
                (case find (\<lambda>m. NegInfinity < score m \<and> ?G m) moves of
                   Some m \<Rightarrow> m | None \<Rightarrow> hd moves)"
    unfolding score_def by (rule bestLoop_find)
  show ?thesis
  proof (cases "\<exists>x \<in> set moves. NegInfinity < score x")
    case True
    then obtain x where x: "x \<in> set moves" "NegInfinity < score x"
      by blast
    have same: "find (\<lambda>m. NegInfinity < score m \<and> ?G m) moves = find ?G moves"
    proof (rule find_cong [OF refl])
      fix m
      assume "m \<in> set moves"
      show "(NegInfinity < score m \<and> ?G m) = ?G m"
        using x by (auto intro: less_le_trans)
    qed
    from greatest_exists [OF assms(2), of score] have "\<exists>m. m \<in> set moves \<and> ?G m"
      by blast
    then obtain r where "find ?G moves = Some r"
      by (cases "find ?G moves") (auto simp: find_None_iff)
    then show ?thesis
      by (simp add: loop same)
  next
    case False
    then have all: "\<And>x. x \<in> set moves \<Longrightarrow> score x = NegInfinity"
      by (metis NegInfinity_least le_less)
    then have none: "find (\<lambda>m. NegInfinity < score m \<and> ?G m) moves = None"
      by (auto simp: find_None_iff)
    obtain m ms where ms: "moves = m # ms"
      using assms(2) by (cases moves) auto
    have "?G m"
      using all ms by simp
    then have "find ?G moves = Some m"
      unfolding ms by simp
    moreover have "bestLoop board clr d moves (hd moves) NegInfinity = hd moves"
      by (simp only: loop none option.simps)
    moreover have "hd moves = m"
      by (simp add: ms)
    ultimately show ?thesis
      by simp
  qed
qed


text \<open>Claim C2. On an 8 x 8 board, for every colour and depth: \<open>minimax\<close> called with the
  window from -Infinity to Infinity returns the value of the unpruned search; the loop of
  \<open>getBestMove\<close>, run at any depth, chooses the move the unpruned search chooses (the first
  move in generation order whose score is the greatest); and so does \<open>getBestMove\<close> at
  \<open>medium\<close> and \<open>hard\<close>.\<close>

theorem alpha_beta_same_move:
  assumes "wf_board board"
  shows "minimax board depth NegInfinity Infinity maximizing clr
           = minimaxFull board depth maximizing clr
       \<and> (getAllPossibleMoves board clr \<noteq> [] \<longrightarrow>
            Some (bestLoop board clr depth (getAllPossibleMoves board clr)
                    (hd (getAllPossibleMoves board clr)) NegInfinity)
              = fullSearchMove board clr (Suc depth))
       \<and> (d \<noteq> Easy \<longrightarrow> getBestMove board clr d rnd = fullSearchMove board clr (depthOf d))"
proof -
  let ?moves = "getAllPossibleMoves board clr"
  have search: "Some (bestLoop board clr k ?moves (hd ?moves) NegInfinity)
                  = fullSearchMove board clr (Suc k)" if "?moves \<noteq> []" for k
    using bestLoop_first_greatest [OF that, of board clr k]
    by (simp add: fullSearchMove_def Let_def minimax_full_window)
  have "getBestMove board clr d rnd = fullSearchMove board clr (depthOf d)" if "d \<noteq> Easy"
  proof (cases "?moves = []")
    case True
    then show ?thesis
      by (simp add: getBestMove_def fullSearchMove_def Let_def)
  next
    case False
    obtain k where k: "depthOf d = Suc k"
      by (cases d) (simp_all add: depthOf_def)
    show ?thesis
      using that False search [OF False, of k] by (simp add: getBestMove_def Let_def k)
  qed
  with search show ?thesis
    by (simp add: minimax_full_window)
qed



theorem alpha_beta_same_move_witness:
  "wf_board pawnBoard \<and> Medium \<noteq> Easy
   \<and> getAllPossibleMoves pawnBoard White
       = [(\<lparr>row = 6, col = 0\<rparr>, \<lparr>row = 5, col = 0\<rparr>), (\<lparr>row = 6, col = 0\<rparr>, \<lparr>row = 4, col = 0\<rparr>)]
   \<and> getBestMove pawnBoard White Medium (\<lambda>k. 0) = fullSearchMove pawnBoard White 2
   \<and> minimax pawnBoard 0 NegInfinity Infinity False White = Num (- 10)
   \<and> minimaxFull pawnBoard 0 False White = Num (- 10)"
proof -
  have m: "Medium \<noteq> Easy"
    by simp
  have moves: "getAllPossibleMoves pawnBoard White
       = [(\<lparr>row = 6, col = 0\<rparr>, \<lparr>row = 5, col = 0\<rparr>), (\<lparr>row = 6, col = 0\<rparr>, \<lparr>row = 4, col = 0\<rparr>)]"
    by code_simp
  have leaf: "minimaxFull pawnBoard 0 False White = Num (- 10)"
    by code_simp
  have "depthOf Medium = 2"
    by (simp add: depthOf_def)
  then show ?thesis
    using alpha_beta_same_move [OF wf_pawnBoard, of 0 False White Medium "\<lambda>k. 0"] wf_pawnBoard m moves leaf
    by simp
qed

section \<open>The move returned by the search\<close>

lemma bestLoop_mem:
  "bestLoop board clr d moves bestMove bestValue \<in> insert bestMove (set moves)"
proof (induction moves arbitrary: bestMove bestValue)
  case Nil
  show ?case by simp
next
  case (Cons m moves)
  let ?val = "minimax (makeMove board (fst m) (snd m)) d NegInfinity Infinity False clr"
  show ?case
  proof (cases "?val > bestValue")
    case True
    then have "bestLoop board clr d (m # moves) bestMove bestValue
                 = bestLoop board clr d moves m ?val"
      by (simp add: Let_def)
    with Cons.IH [of m ?val] show ?thesis
      by auto
  next
    case False
    then have "bestLoop board clr d (m # moves) bestMove bestValue
                 = bestLoop board clr d moves bestMove bestValue"
      by (simp add: Let_def)
    with Cons.IH [of bestMove bestValue] show ?thesis
      by auto
  qed
qed

lemma element_floor:
  fixes r :: rat
  assumes "0 \<le> r" and "r < 1" and "xs \<noteq> []"
  shows "\<exists>x \<in> set xs. element xs \<lfloor>r * of_nat (length xs)\<rfloor> = Some x"
proof -
  let ?n = "length xs"
  let ?i = "\<lfloor>r * of_nat ?n\<rfloor>"
  have n: "0 < ?n"
    using assms(3) by simp
  have "0 \<le> r * of_nat ?n"
    using assms(1) by simp
  then have lo: "0 \<le> ?i"
    by simp
  have "r * of_nat ?n < 1 * of_nat ?n"
    using assms(2) n by (intro mult_strict_right_mono) simp_all
  then have "r * of_nat ?n < of_int (int ?n)"
    by simp
  then have hi: "?i < int ?n"
    by (simp only: floor_less_iff)
  from lo hi have "nat ?i < ?n"
    by linarith
  then have "xs ! nat ?i \<in> set xs"
    by (rule nth_mem)
  moreover have "element xs ?i = Some (xs ! nat ?i)"
    using lo hi by (simp add: element_def)
  ultimately show ?thesis
    by blast
qed

lemma getAllPossibleMoves_empty_iff:
  "getAllPossibleMoves board clr = [] \<longleftrightarrow>
     (\<forall>pos \<in> set allSquares. \<forall>p. cellAt board (row pos) (col pos) = Some p \<and> color p = clr \<longrightarrow>
        validMovesOfPiece board pos p None = [])"
  by (auto simp: getAllPossibleMoves_def split: option.splits)

lemma getAllPossibleMoves_mem:
  assumes "m \<in> set (getAllPossibleMoves board clr)"
  shows "\<exists>p. fst m \<in> set allSquares \<and> cellAt board (row (fst m)) (col (fst m)) = Some p
           \<and> color p = clr \<and> snd m \<in> set (validMovesOfPiece board (fst m) p None)"
  using assms
  by (auto simp: getAllPossibleMoves_def split: option.splits if_splits) metis

lemma getBestMove_some:
  assumes "\<forall>k. 0 \<le> rnd k \<and> rnd k < 1" and "getAllPossibleMoves board clr \<noteq> []"
  shows "\<exists>m \<in> set (getAllPossibleMoves board clr). getBestMove board clr d rnd = Some m"
proof -
  let ?moves = "getAllPossibleMoves board clr"
  let ?captures = "filter (\<lambda>m. cellAt board (row (snd m)) (col (snd m)) \<noteq> None) ?moves"
  have r: "0 \<le> rnd k" "rnd k < 1" for k
    using assms(1) by simp_all
  have hd: "hd ?moves \<in> set ?moves"
    using assms(2) by simp
  show ?thesis
  proof (cases "d = Easy \<and> rnd 0 < 1 / 2")
    case False
    then have "getBestMove board clr d rnd
                 = Some (bestLoop board clr (depthOf d - 1) ?moves (hd ?moves) NegInfinity)"
      using assms(2) by (auto simp: getBestMove_def Let_def)
    moreover have "bestLoop board clr (depthOf d - 1) ?moves (hd ?moves) NegInfinity \<in> set ?moves"
      using bestLoop_mem [of board clr "depthOf d - 1" ?moves "hd ?moves" NegInfinity] hd by auto
    ultimately show ?thesis
      by simp
  next
    case True
    show ?thesis
    proof (cases "length ?captures > 0 \<and> rnd 1 < 7 / 10")
      case True
      then have "?captures \<noteq> []"
        by auto
      from element_floor [OF r(1) r(2) this, of 2]
      obtain x where x: "x \<in> set ?captures"
          "element ?captures \<lfloor>rnd 2 * of_nat (length ?captures)\<rfloor> = Some x"
        by blast
      have "getBestMove board clr d rnd = element ?captures \<lfloor>rnd 2 * of_nat (length ?captures)\<rfloor>"
        using True \<open>d = Easy \<and> rnd 0 < 1 / 2\<close> assms(2) by (simp add: getBestMove_def Let_def)
      with x show ?thesis
        by auto
    next
      case False
      let ?k = "if length ?captures > 0 then 2 else (1::nat)"
      from element_floor [OF r(1) r(2) assms(2), of ?k]
      obtain x where x: "x \<in> set ?moves"
          "element ?moves \<lfloor>rnd ?k * of_nat (length ?moves)\<rfloor> = Some x"
        by blast
      have "getBestMove board clr d rnd = element ?moves \<lfloor>rnd ?k * of_nat (length ?moves)\<rfloor>"
        using False \<open>d = Easy \<and> rnd 0 < 1 / 2\<close> assms(2)
        by (auto simp: getBestMove_def Let_def)
      with x show ?thesis
        by auto
    qed
  qed
qed

text \<open>Claim C5. On an 8 x 8 board, for every colour and difficulty and whatever
  \<open>Math.random()\<close> returns in [0, 1): \<open>getBestMove\<close> returns \<open>null\<close> exactly when
  \<open>getAllPossibleMoves\<close> is empty, which is exactly when \<open>getValidMoves\<close> is empty on every
  square of the board that holds a piece of the colour; and a move it returns is one of
  \<open>getAllPossibleMoves\<close>, each of which is a destination that \<open>getValidMoves\<close> returns for a
  piece of the colour.\<close>

theorem getBestMove_null_iff_no_move:
  assumes "wf_board board" and "\<forall>k. 0 \<le> rnd k \<and> rnd k < 1"
  shows "(getBestMove board clr d rnd = None \<longleftrightarrow> getAllPossibleMoves board clr = [])
       \<and> (getAllPossibleMoves board clr = [] \<longleftrightarrow>
            (\<forall>pos \<in> set allSquares. \<forall>p.
               cellAt board (row pos) (col pos) = Some p \<and> color p = clr \<longrightarrow>
               getValidMoves board pos None = Inr []))
       \<and> (\<forall>m. getBestMove board clr d rnd = Some m \<longrightarrow> m \<in> set (getAllPossibleMoves board clr))
       \<and> (\<forall>m \<in> set (getAllPossibleMoves board clr). \<exists>p moves.
             cellAt board (row (fst m)) (col (fst m)) = Some p \<and> color p = clr
             \<and> getValidMoves board (fst m) None = Inr moves \<and> snd m \<in> set moves)"
proof -
  let ?moves = "getAllPossibleMoves board clr"
  have on_piece: "getValidMoves board pos None = Inr (validMovesOfPiece board pos p None)"
    if "pos \<in> set allSquares" and "cellAt board (row pos) (col pos) = Some p" for pos p
    using allSquares_range [OF that(1)] that(2) assms(1) by (intro getValidMoves_on_piece) simp_all
  have none: "getBestMove board clr d rnd = None" if "?moves = []"
    using that by (simp add: getBestMove_def Let_def)
  have some: "\<exists>m \<in> set ?moves. getBestMove board clr d rnd = Some m" if "?moves \<noteq> []"
    using assms(2) that by (rule getBestMove_some)
  have c1: "getBestMove board clr d rnd = None \<longleftrightarrow> ?moves = []"
    using none some by fastforce
  have c2: "?moves = [] \<longleftrightarrow>
            (\<forall>pos \<in> set allSquares. \<forall>p.
               cellAt board (row pos) (col pos) = Some p \<and> color p = clr \<longrightarrow>
               getValidMoves board pos None = Inr [])"
    unfolding getAllPossibleMoves_empty_iff using on_piece by auto
  have c3: "\<forall>m. getBestMove board clr d rnd = Some m \<longrightarrow> m \<in> set ?moves"
    using none some by (cases "?moves = []") auto
  have c4: "\<forall>m \<in> set ?moves. \<exists>p moves.
             cellAt board (row (fst m)) (col (fst m)) = Some p \<and> color p = clr
             \<and> getValidMoves board (fst m) None = Inr moves \<and> snd m \<in> set moves"
  proof
    fix m
    assume "m \<in> set ?moves"
    from getAllPossibleMoves_mem [OF this] obtain p where p: "fst m \<in> set allSquares"
        "cellAt board (row (fst m)) (col (fst m)) = Some p" "color p = clr"
        "snd m \<in> set (validMovesOfPiece board (fst m) p None)"
      by blast
    with on_piece [OF p(1,2)] show "\<exists>p moves.
             cellAt board (row (fst m)) (col (fst m)) = Some p \<and> color p = clr
             \<and> getValidMoves board (fst m) None = Inr moves \<and> snd m \<in> set moves"
      by blast
  qed
  show ?thesis
    by (rule c1 c2 c3 c4 conjI)+
qed

theorem getBestMove_null_iff_no_move_witness:
  "wf_board staleBoard \<and> (\<forall>k::nat. (0::rat) \<le> 0 \<and> (0::rat) < 1)
   \<and> getAllPossibleMoves staleBoard Black = []
   \<and> getBestMove staleBoard Black Easy (\<lambda>k. 0) = None
   \<and> getBestMove staleBoard Black Hard (\<lambda>k. 0) = None
   \<and> getAllPossibleMoves pawnBoard White
       = [(\<lparr>row = 6, col = 0\<rparr>, \<lparr>row = 5, col = 0\<rparr>), (\<lparr>row = 6, col = 0\<rparr>, \<lparr>row = 4, col = 0\<rparr>)]
   \<and> getBestMove pawnBoard White Easy (\<lambda>k. 0) = Some (\<lparr>row = 6, col = 0\<rparr>, \<lparr>row = 5, col = 0\<rparr>)"
proof -
  have r: "\<forall>k::nat. (0::rat) \<le> (\<lambda>k. 0) k \<and> (\<lambda>k. 0::rat) k < 1"
    by simp
  have stale: "getAllPossibleMoves staleBoard Black = []"
    by code_simp
  have pawn: "getAllPossibleMoves pawnBoard White
       = [(\<lparr>row = 6, col = 0\<rparr>, \<lparr>row = 5, col = 0\<rparr>), (\<lparr>row = 6, col = 0\<rparr>, \<lparr>row = 4, col = 0\<rparr>)]"
    by code_simp
  have easy: "getBestMove pawnBoard White Easy (\<lambda>k. 0)
                = Some (\<lparr>row = 6, col = 0\<rparr>, \<lparr>row = 5, col = 0\<rparr>)"
    by code_simp
  show ?thesis
    using getBestMove_null_iff_no_move [OF wf_staleBoard r, of Black Easy]
      getBestMove_null_iff_no_move [OF wf_staleBoard r, of Black Hard]
      getBestMove_null_iff_no_move [OF wf_pawnBoard r, of White Easy]
      wf_staleBoard stale pawn easy
    by simp
qed

end
